theory Spec2Isabelle
  imports Main "HOL-Library.Word" "HOL-Library.Monad_Syntax"
begin

section \<open>Configuration, bytes and C strings\<close>

text \<open>
  A shallow embedding of \<^verbatim>\<open>32MX_SP/src/main.c\<close>: ADC sampling with UART output on a
  PIC32MX. The three routines of the file (\<^verbatim>\<open>Calculate_ADC_Average\<close>,
  \<^verbatim>\<open>UART_RX_Callback\<close>, \<^verbatim>\<open>ADC_Callback\<close>) become functions on a record of the
  file's global variables. Each routine is modelled as running to completion; the
  peripheral library behind \<^verbatim>\<open>definitions.h\<close> is not part of the file and enters the
  model only through the small interface of the section on the hardware adapter.
\<close>

text \<open>\<^verbatim>\<open>#define ADC_SAMPLE_COUNT 1200\<close>\<close>

definition ADC_SAMPLE_COUNT :: "32 word" where
  "ADC_SAMPLE_COUNT = 1200"

text \<open>The string terminator \<^verbatim>\<open>'\0'\<close> and the line terminator \<^verbatim>\<open>"\r\n"\<close>.\<close>

definition NUL :: char where
  "NUL = CHR 0x00"

definition CRLF :: string where
  "CRLF = [CHR 0x0D, CHR 0x0A]"

text \<open>A C string literal is the array of its characters followed by the terminator.\<close>

definition c_lit :: "string \<Rightarrow> char list" where
  "c_lit s = s @ [NUL]"

text \<open>The content of a character array read as a C string: everything before the first
  terminator.\<close>

definition c_str :: "char list \<Rightarrow> string" where
  "c_str buf = takeWhile (\<lambda>c. c \<noteq> NUL) buf"

definition strlen :: "char list \<Rightarrow> nat" where
  "strlen buf = length (c_str buf)"

text \<open>
  \<^verbatim>\<open>strcmp\<close> walks both arrays, compares the characters as unsigned bytes and stops at
  the first difference or at a common terminator. The end of a list stands for a
  terminator there.
\<close>

fun strcmp :: "char list \<Rightarrow> char list \<Rightarrow> int" where
  "strcmp (a # as) (b # bs) =
     (if a \<noteq> b then int (of_char a) - int (of_char b)
      else if a = NUL then 0
      else strcmp as bs)"
| "strcmp [] (b # bs) = - int (of_char b)"
| "strcmp (a # as) [] = int (of_char a)"
| "strcmp [] [] = 0"

text \<open>
  The value of a plain \<^verbatim>\<open>char\<close> once promoted to \<^verbatim>\<open>int\<close>, read as signed: the
  bytes from 0x80 on are negative. The range test of the receive callback selects the
  same bytes under the unsigned reading (lemma \<open>char_val_range\<close>).
\<close>

definition char_val :: "char \<Rightarrow> int" where
  "char_val c = (if (of_char c :: nat) < 128 then int (of_char c) else int (of_char c) - 256)"

text \<open>The decimal digits that \<^verbatim>\<open>%u\<close> prints for an unsigned value.\<close>

definition digit :: "nat \<Rightarrow> char" where
  "digit d = ''0123456789'' ! d"

function dec_digits :: "nat \<Rightarrow> string" where
  "dec_digits n = (if n < 10 then [digit n] else dec_digits (n div 10) @ [digit (n mod 10)])"
  by pat_completeness auto
termination
  by (relation "measure (\<lambda>n. n)") auto

declare dec_digits.simps [simp del]

text \<open>
  \<^verbatim>\<open>sprintf(buf, "%u\r\n", v)\<close> stores the digits, the line terminator and a \<^verbatim>\<open>'\0'\<close> at
  the start of the buffer and leaves the rest of it as it was.
\<close>

definition sprintf_u_crlf :: "char list \<Rightarrow> 32 word \<Rightarrow> char list" where
  "sprintf_u_crlf buf v =
     (let out = c_lit (dec_digits (unat v) @ CRLF) in out @ drop (length out) buf)"

section \<open>Global variables\<close>

text \<open>
  The globals of the file, followed by what the program does to the peripherals:
  the byte strings handed to \<^verbatim>\<open>UART2_Write\<close> in order, the number of times the receive
  channel was armed with \<^verbatim>\<open>UART2_Read\<close>, the number of times the ADC interrupt flag was
  cleared, and the number of \<^verbatim>\<open>UART2_WriteIsBusy\<close> polls made so far.
\<close>

record state =
  adcSum :: "32 word"
  sampleCount :: "32 word"
  dataReady :: bool
  adcEnabled :: bool
  txBuffer :: "char list"
  rxBuffer :: "char list"
  rxByte :: char
  rxIndex :: "8 word"
  tx_log :: "string list"
  rx_arms :: nat
  adc_clears :: nat
  polls :: nat

text \<open>The static initialisers: everything zero, \<^verbatim>\<open>txBuffer[64]\<close> and \<^verbatim>\<open>rxBuffer[16]\<close>.\<close>

definition initial_state :: state where
  "initial_state =
     \<lparr>adcSum = 0, sampleCount = 0, dataReady = False, adcEnabled = False,
      txBuffer = replicate 64 NUL, rxBuffer = replicate 16 NUL, rxByte = NUL,
      rxIndex = 0, tx_log = [], rx_arms = 0, adc_clears = 0, polls = 0\<rparr>"

section \<open>Hardware adapter\<close>

text \<open>
  Modelled from the spec: the peripheral library (\<^verbatim>\<open>definitions.h\<close>) is not in the
  source file. Section 4.4 of the specification lists what the core needs of it:
  \<^verbatim>\<open>write_bytes(buf)\<close>, \<^verbatim>\<open>write_is_busy() -> bool\<close>, \<^verbatim>\<open>read_one_byte_async\<close>,
  \<^verbatim>\<open>read_last_conversion() -> sample\<close> and \<^verbatim>\<open>clear_conversion_interrupt()\<close>.
  Writing and arming are recorded in the state. The converted sample is an argument of
  \<^verbatim>\<open>ADC_Callback\<close>. The transmitter is an arbitrary function \<open>busy\<close>: \<open>busy k\<close> is the
  answer of the \<open>k\<close>-th poll of \<^verbatim>\<open>UART2_WriteIsBusy\<close>.
\<close>

definition UART2_Write :: "char list \<Rightarrow> nat \<Rightarrow> state \<Rightarrow> state" where
  "UART2_Write buf n s = s\<lparr>tx_log := tx_log s @ [take n buf]\<rparr>"

definition UART2_Read :: "state \<Rightarrow> state" where
  "UART2_Read s = s\<lparr>rx_arms := Suc (rx_arms s)\<rparr>"

definition EVIC_SourceStatusClear :: "state \<Rightarrow> state" where
  "EVIC_SourceStatusClear s = s\<lparr>adc_clears := Suc (adc_clears s)\<rparr>"

text \<open>
  \<^verbatim>\<open>while (UART2_WriteIsBusy());\<close> polls until the transmitter answers that it is idle.
  The loop need not end: \<open>None\<close> is the run that polls forever. The result is the number
  of polls made once the loop is left.
\<close>

partial_function (option) wait_idle :: "(nat \<Rightarrow> bool) \<Rightarrow> nat \<Rightarrow> nat option" where
  "wait_idle busy k = (if busy k then wait_idle busy (Suc k) else Some (Suc k))"

declare wait_idle.simps [code]

definition UART2_WaitWhileBusy :: "(nat \<Rightarrow> bool) \<Rightarrow> state \<Rightarrow> state option" where
  "UART2_WaitWhileBusy busy s =
     (case wait_idle busy (polls s) of None \<Rightarrow> None | Some k \<Rightarrow> Some (s\<lparr>polls := k\<rparr>))"

text \<open>Two transmitters: one that is never busy and one that never becomes idle.\<close>

definition idle :: "nat \<Rightarrow> bool" where
  "idle k = False"

definition stuck :: "nat \<Rightarrow> bool" where
  "stuck k = True"

section \<open>Processing functions\<close>

text \<open>
  The division \<^verbatim>\<open>currentSum / currentCount\<close> on \<^verbatim>\<open>uint32_t\<close>. C gives a quotient only
  for a divisor other than zero; division by zero is undefined there and is a fault of
  its own here, distinct from every state the routine can return.
\<close>

datatype fault = DivideByZero

definition udiv32 :: "32 word \<Rightarrow> 32 word \<Rightarrow> fault + 32 word" where
  "udiv32 a b = (if b = 0 then Inl DivideByZero else Inr (a div b))"

text \<open>
  \<^verbatim>\<open>Calculate_ADC_Average\<close>: snapshot and reset the accumulators, return if the
  snapshotted count is zero, otherwise divide, wait for the transmitter, format into
  \<^verbatim>\<open>txBuffer\<close> and transmit \<^verbatim>\<open>strlen(txBuffer)\<close> bytes of it. The outcome is
  \<open>None\<close> when the routine never returns, \<open>Some (Inl f)\<close> when it stops on the fault
  \<open>f\<close>, and \<open>Some (Inr s')\<close> when it returns and leaves the state \<open>s'\<close>.
\<close>

definition Calculate_ADC_Average :: "(nat \<Rightarrow> bool) \<Rightarrow> state \<Rightarrow> (fault + state) option" where
  "Calculate_ADC_Average busy s =
     (let currentSum = adcSum s;
          currentCount = sampleCount s;
          s1 = s\<lparr>adcSum := 0, sampleCount := 0, dataReady := False\<rparr>
      in if currentCount = 0 then Some (Inr s1)
         else
           case udiv32 currentSum currentCount of
             Inl f \<Rightarrow> Some (Inl f)
           | Inr average \<Rightarrow>
               do {
                 s2 \<leftarrow> UART2_WaitWhileBusy busy s1;
                 let s3 = s2\<lparr>txBuffer := sprintf_u_crlf (txBuffer s2) average\<rparr>;
                 Some (Inr (UART2_Write (txBuffer s3) (strlen (txBuffer s3)) s3))
               })"

section \<open>Interrupt callbacks\<close>

text \<open>
  \<^verbatim>\<open>UART_RX_Callback\<close>, on the byte the receive interrupt left in \<^verbatim>\<open>rxByte\<close>.
  \<^verbatim>\<open>sizeof(rxBuffer) - 1\<close> is 15.
\<close>

definition UART_RX_Callback :: "(nat \<Rightarrow> bool) \<Rightarrow> state \<Rightarrow> state option" where
  "UART_RX_Callback busy s =
     (if char_val (rxByte s) \<ge> 0x20 \<and> char_val (rxByte s) \<le> 0x7E then
        if rxIndex s < 15 then
          let s1 = s\<lparr>rxBuffer := (rxBuffer s)[unat (rxIndex s) := rxByte s],
                     rxIndex := rxIndex s + 1\<rparr>;
              s2 = s1\<lparr>rxBuffer := (rxBuffer s1)[unat (rxIndex s1) := NUL]\<rparr>
          in if strcmp (rxBuffer s2) (c_lit ''START'') = 0 then
               do {
                 let s3 = s2\<lparr>adcEnabled := True, rxIndex := 0,
                             rxBuffer := (rxBuffer s2)[0 := NUL]\<rparr>;
                 s4 \<leftarrow> UART2_WaitWhileBusy busy s3;
                 Some (UART2_Read (UART2_Write (c_lit (''OK_START'' @ CRLF)) 10 s4))
               }
             else if strcmp (rxBuffer s2) (c_lit ''STOP'') = 0 then
               do {
                 let s3 = s2\<lparr>adcEnabled := False, adcSum := 0, sampleCount := 0,
                             dataReady := False, rxIndex := 0,
                             rxBuffer := (rxBuffer s2)[0 := NUL]\<rparr>;
                 s4 \<leftarrow> UART2_WaitWhileBusy busy s3;
                 Some (UART2_Read (UART2_Write (c_lit (''OK_STOP'' @ CRLF)) 9 s4))
               }
             else if rxIndex s2 \<ge> 15 then
               Some (UART2_Read (s2\<lparr>rxIndex := 0, rxBuffer := (rxBuffer s2)[0 := NUL]\<rparr>))
             else Some (UART2_Read s2)
        else Some (UART2_Read s)
      else Some (UART2_Read s))"

text \<open>
  \<^verbatim>\<open>ADC_Callback\<close>, with the value \<^verbatim>\<open>ADC_ResultGet(ADC_RESULT_BUFFER_0)\<close> returns as
  its argument.
\<close>

definition ADC_Callback :: "32 word \<Rightarrow> state \<Rightarrow> state" where
  "ADC_Callback sample s =
     (let s0 = EVIC_SourceStatusClear s
      in if \<not> adcEnabled s0 then s0
         else
           let s1 = s0\<lparr>adcSum := adcSum s0 + sample\<rparr>;
               s2 = s1\<lparr>sampleCount := sampleCount s1 + 1\<rparr>
           in if sampleCount s2 \<ge> ADC_SAMPLE_COUNT then s2\<lparr>dataReady := True\<rparr> else s2)"

section \<open>Events\<close>

text \<open>
  The receive interrupt stores the received byte in \<^verbatim>\<open>rxByte\<close> (the address given to
  \<^verbatim>\<open>UART2_Read\<close>) and then invokes the callback.
\<close>

definition receive :: "(nat \<Rightarrow> bool) \<Rightarrow> char \<Rightarrow> state \<Rightarrow> state option" where
  "receive busy b s = UART_RX_Callback busy (s\<lparr>rxByte := b\<rparr>)"

fun receive_all :: "(nat \<Rightarrow> bool) \<Rightarrow> char list \<Rightarrow> state \<Rightarrow> state option" where
  "receive_all busy [] s = Some s"
| "receive_all busy (b # bs) s =
     (case receive busy b s of None \<Rightarrow> None | Some s' \<Rightarrow> receive_all busy bs s')"

text \<open>A run of conversions, one callback per converted sample.\<close>

fun sample_all :: "32 word list \<Rightarrow> state \<Rightarrow> state" where
  "sample_all [] s = s"
| "sample_all (x # xs) s = sample_all xs (ADC_Callback x s)"

text \<open>
  The operations that touch the shared state, as events: a conversion completes, a byte
  arrives, the reporter runs. A sequence of events stops at the first one that does not
  return or that faults.
\<close>

datatype event = Conversion "32 word" | Byte char | Report

fun step :: "(nat \<Rightarrow> bool) \<Rightarrow> event \<Rightarrow> state \<Rightarrow> (fault + state) option" where
  "step busy (Conversion x) s = Some (Inr (ADC_Callback x s))"
| "step busy (Byte b) s = map_option Inr (receive busy b s)"
| "step busy Report s = Calculate_ADC_Average busy s"

fun run :: "(nat \<Rightarrow> bool) \<Rightarrow> event list \<Rightarrow> state \<Rightarrow> (fault + state) option" where
  "run busy [] s = Some (Inr s)"
| "run busy (e # es) s =
     (case step busy e s of
        None \<Rightarrow> None
      | Some (Inl f) \<Rightarrow> Some (Inl f)
      | Some (Inr s') \<Rightarrow> run busy es s')"

text \<open>
  \<^verbatim>\<open>main\<close>: after the peripherals are initialised it writes \<^verbatim>\<open>READY\r\n\<close> and arms the
  receive channel; registering the callbacks and starting the ADC and the timer touch
  none of the globals. The body of its loop runs the reporter when \<^verbatim>\<open>dataReady\<close> is
  set.
\<close>

definition main_setup :: state where
  "main_setup = UART2_Read (UART2_Write (c_lit (''READY'' @ CRLF)) 7 initial_state)"

definition main_loop_body :: "(nat \<Rightarrow> bool) \<Rightarrow> state \<Rightarrow> (fault + state) option" where
  "main_loop_body busy s =
     (if dataReady s then Calculate_ADC_Average busy s else Some (Inr s))"

section \<open>The line buffer, abstractly\<close>

text \<open>The bytes the recognizer accepts: 0x20 to 0x7E inclusive.\<close>

definition printable :: "char \<Rightarrow> bool" where
  "printable b = (0x20 \<le> (of_char b :: nat) \<and> (of_char b :: nat) \<le> 0x7E)"

text \<open>
  The line assembled so far is the first \<^verbatim>\<open>rxIndex\<close> bytes of \<^verbatim>\<open>rxBuffer\<close>. The
  recognizer keeps the array at its 16 bytes, the index below 15 between two calls, and
  no terminator inside the line.
\<close>

definition line :: "state \<Rightarrow> string" where
  "line s = take (unat (rxIndex s)) (rxBuffer s)"

definition rx_ok :: "state \<Rightarrow> bool" where
  "rx_ok s = (length (rxBuffer s) = 16 \<and> rxIndex s < 15 \<and> NUL \<notin> set (line s))"

text \<open>What a call leaves alone when it neither touches the accumulator nor transmits.\<close>

definition quiet :: "state \<Rightarrow> state \<Rightarrow> bool" where
  "quiet s s' =
     (adcSum s' = adcSum s \<and> sampleCount s' = sampleCount s \<and> dataReady s' = dataReady s \<and>
      adcEnabled s' = adcEnabled s \<and> txBuffer s' = txBuffer s \<and> tx_log s' = tx_log s \<and>
      adc_clears s' = adc_clears s \<and> polls s' = polls s)"

text \<open>The two buffer operations of the callback: store a byte and terminate, and reset.\<close>

definition appended :: "char \<Rightarrow> state \<Rightarrow> state" where
  "appended b s =
     s\<lparr>rxByte := b, rxIndex := rxIndex s + 1,
       rxBuffer := (rxBuffer s)[unat (rxIndex s) := b, Suc (unat (rxIndex s)) := NUL]\<rparr>"

definition cleared :: "state \<Rightarrow> state" where
  "cleared s = s\<lparr>rxIndex := 0, rxBuffer := (rxBuffer s)[0 := NUL]\<rparr>"

text \<open>No byte of \<open>bs\<close>, appended in turn to the line \<open>l\<close>, completes a command.\<close>

fun unmatched :: "string \<Rightarrow> char list \<Rightarrow> bool" where
  "unmatched l [] = True"
| "unmatched l (b # bs) =
     (l @ [b] \<noteq> ''START'' \<and> l @ [b] \<noteq> ''STOP'' \<and> unmatched (l @ [b]) bs)"

text \<open>
  An example state: sampling is enabled, three samples with sum 60 are accumulated, and
  the bytes \<^verbatim>\<open>STO\<close> have been received.
\<close>

definition sampling_state :: state where
  "sampling_state =
     initial_state\<lparr>adcSum := 60, sampleCount := 3, adcEnabled := True,
       rxBuffer := ''STO'' @ replicate 13 NUL, rxIndex := 3\<rparr>"


section \<open>Event sequences and the window invariant\<close>

text \<open>The power-up state once sampling has been enabled.\<close>

definition enabled_state :: state where
  "enabled_state = initial_state\<lparr>adcEnabled := True\<rparr>"

text \<open>The number a string of decimal digits denotes, read from the left.\<close>

definition dec_value :: "string \<Rightarrow> nat" where
  "dec_value cs = foldl (\<lambda>a c. 10 * a + (of_char c - 48)) 0 cs"

text \<open>
  A sequence of events is timely from a state when no conversion completes while
  \<^verbatim>\<open>dataReady\<close> is still set: the reporter (or a \<^verbatim>\<open>STOP\<close>) has drained each
  completed window before the next sample arrives.
\<close>

fun timely :: "(nat \<Rightarrow> bool) \<Rightarrow> event list \<Rightarrow> state \<Rightarrow> bool" where
  "timely busy [] s = True"
| "timely busy (e # es) s =
     ((case e of Conversion x \<Rightarrow> \<not> dataReady s | _ \<Rightarrow> True) \<and>
      (case step busy e s of Some (Inr s') \<Rightarrow> timely busy es s' | _ \<Rightarrow> True))"

text \<open>The invariant of the specification's data model for the accumulator.\<close>

definition window_inv :: "state \<Rightarrow> bool" where
  "window_inv s =
     (sampleCount s \<le> ADC_SAMPLE_COUNT \<and> (dataReady s = (sampleCount s = ADC_SAMPLE_COUNT)))"

text \<open>
  Two event sequences after power-up: \<^verbatim>\<open>START\<close> followed by 1201 conversions with
  no run of the reporter in between, and \<^verbatim>\<open>START\<close> followed by exactly one window of
  1200 conversions.
\<close>

definition overrun_events :: "event list" where
  "overrun_events = map Byte ''START'' @ map Conversion (replicate 1201 1)"

definition full_window_events :: "event list" where
  "full_window_events = map Byte ''START'' @ map Conversion (replicate 1200 1)"

section \<open>Waiting for the transmitter\<close>

lemma wait_idle_now: "\<not> busy k \<Longrightarrow> wait_idle busy k = Some (Suc k)"
  by (subst wait_idle.simps) simp

lemma wait_idle_later: "busy k \<Longrightarrow> wait_idle busy k = wait_idle busy (Suc k)"
  by (subst wait_idle.simps) simp

lemma wait_idle_terminates:
  "\<not> busy (k + d) \<Longrightarrow> \<exists>m. wait_idle busy k = Some m \<and> k < m \<and> m \<le> Suc (k + d)"
proof (induction d arbitrary: k)
  case 0
  then show ?case by (simp add: wait_idle_now)
next
  case (Suc d)
  show ?case
  proof (cases "busy k")
    case False
    then show ?thesis by (simp add: wait_idle_now)
  next
    case True
    from Suc.prems have "\<not> busy (Suc k + d)" by simp
    from Suc.IH [OF this] obtain m where "wait_idle busy (Suc k) = Some m" "Suc k < m" "m \<le> Suc (Suc k + d)"
      by blast
    with True show ?thesis by (simp add: wait_idle_later)
  qed
qed

lemma wait_idle_idle [simp]: "wait_idle idle k = Some (Suc k)"
  by (simp add: wait_idle_now idle_def)

lemma char_val_range: "(0x20 \<le> char_val c \<and> char_val c \<le> 0x7E) = (0x20 \<le> (of_char c :: nat) \<and> (of_char c :: nat) \<le> 0x7E)"
proof -
  define n where "n = (of_char c :: nat)"
  have "n < 256" by (simp add: n_def)
  then have "(0x20 \<le> (if n < 128 then int n else int n - 256) \<and> (if n < 128 then int n else int n - 256) \<le> 0x7E)
      = (0x20 \<le> n \<and> n \<le> 0x7E)"
    by auto
  then show ?thesis
    unfolding char_val_def n_def .
qed


section \<open>C strings and the receive buffer\<close>

lemma of_char_NUL [simp]: "(of_char NUL :: nat) = 0"
  by (simp add: NUL_def)

lemma of_char_eq_0_iff: "((of_char c :: nat) = 0) = (c = NUL)"
  using of_char_eq_iff [of c NUL, where ?'a = nat] by (simp del: of_char_eq_iff)

lemma printable_not_NUL: "printable b \<Longrightarrow> b \<noteq> NUL"
  by (auto simp: printable_def)

lemma c_str_Nil [simp]: "c_str [] = []"
  by (simp add: c_str_def)

lemma c_str_Cons: "c_str (a # as) = (if a = NUL then [] else a # c_str as)"
  by (simp add: c_str_def)

lemma int_of_char_diff: "(int (of_char a) - int (of_char b) = 0) = (a = b)"
proof -
  have "(int (of_char a) = int (of_char b)) = ((of_char a :: nat) = of_char b)"
    by (simp only: of_nat_eq_iff)
  then show ?thesis by (simp del: of_nat_of_char)
qed

lemma int_of_char_0: "(int (of_char a) = 0) = (a = NUL)"
proof -
  have "(int (of_char a) = 0) = ((of_char a :: nat) = 0)"
    by (simp only: of_nat_eq_0_iff)
  then show ?thesis by (simp only: of_char_eq_0_iff)
qed

lemma strcmp_0_iff: "(strcmp a b = 0) = (c_str a = c_str b)"
proof (induction a b rule: strcmp.induct)
  case (1 a as b bs)
  show ?case
  proof (cases "a = b")
    case False
    then have "strcmp (a # as) (b # bs) \<noteq> 0"
      using int_of_char_diff [of a b] by (simp del: of_nat_of_char)
    moreover from False have "c_str (a # as) \<noteq> c_str (b # bs)"
      by (auto simp: c_str_Cons)
    ultimately show ?thesis by simp
  next
    case True
    with 1 show ?thesis by (simp add: c_str_Cons)
  qed
next
  case (2 b bs)
  then show ?case using int_of_char_0 [of b] by (auto simp: c_str_Cons simp del: of_nat_of_char)
next
  case (3 a as)
  then show ?case using int_of_char_0 [of a] by (auto simp: c_str_Cons simp del: of_nat_of_char)
next
  case 4
  then show ?case by simp
qed

lemma c_str_append: "NUL \<notin> set xs \<Longrightarrow> c_str (xs @ NUL # ys) = xs"
  by (induction xs) (auto simp: c_str_Cons)

lemma c_str_c_lit: "NUL \<notin> set xs \<Longrightarrow> c_str (c_lit xs) = xs"
  by (simp add: c_lit_def c_str_append)

lemma take_after_append:
  assumes "Suc i < length buf"
  shows "take (Suc i) (buf[i := b, Suc i := NUL]) = take i buf @ [b]"
  using assms by (simp add: take_Suc_conv_app_nth)

lemma c_str_take:
  assumes "i < length xs" "xs ! i = NUL" "NUL \<notin> set (take i xs)"
  shows "c_str xs = take i xs"
proof -
  have "xs = take i xs @ NUL # drop (Suc i) xs"
    using assms(1,2) id_take_nth_drop [of i xs] by simp
  then have "c_str xs = c_str (take i xs @ NUL # drop (Suc i) xs)" by simp
  also have "\<dots> = take i xs" using assms(3) by (rule c_str_append)
  finally show ?thesis .
qed

lemma c_str_after_append:
  assumes "Suc i < length buf" "NUL \<notin> set (take i buf)" "b \<noteq> NUL"
  shows "c_str (buf[i := b, Suc i := NUL]) = take i buf @ [b]"
proof -
  let ?buf' = "buf[i := b, Suc i := NUL]"
  have t: "take (Suc i) ?buf' = take i buf @ [b]"
    using assms(1) by (rule take_after_append)
  have "Suc i < length ?buf'" using assms(1) by simp
  moreover have "?buf' ! Suc i = NUL" using assms(1) by simp
  moreover have "NUL \<notin> set (take (Suc i) ?buf')" using assms(2,3) by (simp add: t)
  ultimately have "c_str ?buf' = take (Suc i) ?buf'" by (rule c_str_take)
  with t show ?thesis by simp
qed

lemma unat_index: "(w :: 8 word) < 15 \<Longrightarrow> unat w < 15 \<and> unat (w + 1) = Suc (unat w)"
  by (simp add: word_less_nat_alt unat_word_ariths)

lemma index_full_iff: "(w :: 8 word) < 15 \<Longrightarrow> (15 \<le> w + 1) = (unat w = 14)"
  using unat_index [of w] by (auto simp: word_le_nat_alt)


lemma length_line: "rx_ok s \<Longrightarrow> length (line s) = unat (rxIndex s)"
  using unat_index [of "rxIndex s"] by (simp add: rx_ok_def line_def)

lemma c_str_appended:
  assumes "rx_ok s" "printable b"
  shows "c_str (rxBuffer (appended b s)) = line s @ [b]"
proof -
  from assms(1) have "Suc (unat (rxIndex s)) < length (rxBuffer s)"
    using unat_index [of "rxIndex s"] by (simp add: rx_ok_def)
  moreover from assms(1) have "NUL \<notin> set (take (unat (rxIndex s)) (rxBuffer s))"
    by (simp add: rx_ok_def line_def)
  moreover from assms(2) have "b \<noteq> NUL" by (rule printable_not_NUL)
  ultimately show ?thesis
    by (simp add: appended_def line_def c_str_after_append)
qed

lemma line_appended:
  assumes "rx_ok s"
  shows "line (appended b s) = line s @ [b]"
proof -
  from assms have "Suc (unat (rxIndex s)) < length (rxBuffer s)"
    using unat_index [of "rxIndex s"] by (simp add: rx_ok_def)
  then have "take (Suc (unat (rxIndex s))) ((rxBuffer s)[unat (rxIndex s) := b, Suc (unat (rxIndex s)) := NUL])
      = take (unat (rxIndex s)) (rxBuffer s) @ [b]"
    by (rule take_after_append)
  moreover from assms have "unat (rxIndex s + 1) = Suc (unat (rxIndex s))"
    using unat_index [of "rxIndex s"] by (simp add: rx_ok_def)
  ultimately show ?thesis by (simp add: appended_def line_def)
qed

lemma START_no_NUL: "NUL \<notin> set ''START''" and STOP_no_NUL: "NUL \<notin> set ''STOP''"
  by (simp_all add: NUL_def)

lemma receive_printable:
  assumes "rx_ok s" "printable b"
  shows "receive busy b s =
     (if line s @ [b] = ''START'' then
        do {
          s4 \<leftarrow> UART2_WaitWhileBusy busy (cleared (appended b s\<lparr>adcEnabled := True\<rparr>));
          Some (UART2_Read (UART2_Write (c_lit (''OK_START'' @ CRLF)) 10 s4))
        }
      else if line s @ [b] = ''STOP'' then
        do {
          s4 \<leftarrow> UART2_WaitWhileBusy busy
                 (cleared (appended b s\<lparr>adcEnabled := False, adcSum := 0, sampleCount := 0,
                    dataReady := False\<rparr>));
          Some (UART2_Read (UART2_Write (c_lit (''OK_STOP'' @ CRLF)) 9 s4))
        }
      else if length (line s) = 14 then Some (UART2_Read (cleared (appended b s)))
      else Some (UART2_Read (appended b s)))"
proof -
  from assms(1) have lt: "rxIndex s < 15" by (simp add: rx_ok_def)
  have idx: "unat (rxIndex s + 1) = Suc (unat (rxIndex s))"
    using unat_index [OF lt] by simp
  have filt: "0x20 \<le> char_val b \<and> char_val b \<le> 0x7E"
    using assms(2) by (simp add: char_val_range printable_def)
  have full: "(15 \<le> rxIndex s + 1) = (length (line s) = 14)"
    using index_full_iff [OF lt] length_line [OF assms(1)] by simp
  define A where "A = line s @ [b]"
  have cs: "c_str ((rxBuffer s)[unat (rxIndex s) := b, Suc (unat (rxIndex s)) := NUL]) = A"
    using c_str_appended [OF assms] by (simp add: appended_def A_def)
  have "receive busy b s =
     (if A = ''START'' then
        do {
          s4 \<leftarrow> UART2_WaitWhileBusy busy (cleared (appended b s\<lparr>adcEnabled := True\<rparr>));
          Some (UART2_Read (UART2_Write (c_lit (''OK_START'' @ CRLF)) 10 s4))
        }
      else if A = ''STOP'' then
        do {
          s4 \<leftarrow> UART2_WaitWhileBusy busy
                 (cleared (appended b s\<lparr>adcEnabled := False, adcSum := 0, sampleCount := 0,
                    dataReady := False\<rparr>));
          Some (UART2_Read (UART2_Write (c_lit (''OK_STOP'' @ CRLF)) 9 s4))
        }
      else if length (line s) = 14 then Some (UART2_Read (cleared (appended b s)))
      else Some (UART2_Read (appended b s)))"
    using filt lt
    by (simp add: receive_def UART_RX_Callback_def Let_def idx full strcmp_0_iff cs
        c_str_c_lit [OF START_no_NUL] c_str_c_lit [OF STOP_no_NUL] appended_def cleared_def
        split del: if_split cong: if_cong)
  then show ?thesis by (simp only: A_def)
qed

lemma receive_unprintable:
  "\<not> printable b \<Longrightarrow> receive busy b s = Some (s\<lparr>rxByte := b, rx_arms := Suc (rx_arms s)\<rparr>)"
proof -
  assume "\<not> printable b"
  then have "\<not> (0x20 \<le> char_val b \<and> char_val b \<le> 0x7E)"
    by (simp add: char_val_range printable_def)
  then have "\<not> (0x20 \<le> char_val (rxByte (s\<lparr>rxByte := b\<rparr>)) \<and>
      char_val (rxByte (s\<lparr>rxByte := b\<rparr>)) \<le> 0x7E)"
    by simp
  then show ?thesis
    by (simp only: receive_def UART_RX_Callback_def if_False) (simp add: UART2_Read_def)
qed

section \<open>The sample accumulator while disabled\<close>

text \<open>
  C9. While \<^verbatim>\<open>adcEnabled\<close> is false, \<^verbatim>\<open>ADC_Callback\<close> returns with \<^verbatim>\<open>adcSum\<close>,
  \<^verbatim>\<open>sampleCount\<close> and \<^verbatim>\<open>dataReady\<close> unchanged: whatever the sample, the only effect on
  the whole state is that the interrupt flag was cleared once more.
\<close>

theorem ADC_Callback_disabled:
  "\<not> adcEnabled s \<Longrightarrow> ADC_Callback x s = s\<lparr>adc_clears := Suc (adc_clears s)\<rparr>"
  by (simp add: ADC_Callback_def EVIC_SourceStatusClear_def Let_def)

theorem ADC_Callback_disabled_witness:
  "\<not> adcEnabled (initial_state\<lparr>adcSum := 41, sampleCount := 2\<rparr>) \<and>
   ADC_Callback 1023 (initial_state\<lparr>adcSum := 41, sampleCount := 2\<rparr>) =
     initial_state\<lparr>adcSum := 41, sampleCount := 2, adc_clears := 1\<rparr>"
  using ADC_Callback_disabled [of "initial_state\<lparr>adcSum := 41, sampleCount := 2\<rparr>" 1023]
  by (simp add: initial_state_def)

section \<open>The reporter on an empty snapshot\<close>

lemma udiv32_zero: "udiv32 a 0 = Inl DivideByZero"
  by (simp add: udiv32_def)

text \<open>
  C5. When the snapshotted count is zero, \<^verbatim>\<open>Calculate_ADC_Average\<close> returns at once,
  whatever the transmitter does: the accumulators are reset, nothing is formatted into
  \<^verbatim>\<open>txBuffer\<close>, nothing is transmitted and the transmitter is not even polled. The
  division of the snapshot is not performed: it is a division by zero, a fault, and the
  outcome is an ordinary return and not that fault.
\<close>

theorem Calculate_ADC_Average_empty:
  "sampleCount s = 0 \<Longrightarrow>
   Calculate_ADC_Average busy s =
     Some (Inr (s\<lparr>adcSum := 0, sampleCount := 0, dataReady := False\<rparr>)) \<and>
   udiv32 (adcSum s) (sampleCount s) = Inl DivideByZero \<and>
   Calculate_ADC_Average busy s \<noteq> Some (Inl DivideByZero)"
  by (simp add: Calculate_ADC_Average_def Let_def udiv32_def)

theorem Calculate_ADC_Average_empty_witness:
  "sampleCount (initial_state\<lparr>adcSum := 7, dataReady := True\<rparr>) = 0 \<and>
   Calculate_ADC_Average stuck (initial_state\<lparr>adcSum := 7, dataReady := True\<rparr>) =
     Some (Inr initial_state) \<and>
   udiv32 7 0 = Inl DivideByZero"
  using Calculate_ADC_Average_empty [of "initial_state\<lparr>adcSum := 7, dataReady := True\<rparr>" stuck]
  by (simp add: initial_state_def)

text \<open>
  The guard is what keeps the fault away. The same routine with the division moved in
  front of the guard stops on the fault at a zero count, so it is a different function;
  and with the guard where the source has it, the reporter faults in no state at all.
\<close>

lemma divide_before_guard_faults:
  "sampleCount s = 0 \<Longrightarrow>
   (case udiv32 (adcSum s) (sampleCount s) of
      Inl f \<Rightarrow> Some (Inl f)
    | Inr average \<Rightarrow> Calculate_ADC_Average busy s) = Some (Inl DivideByZero)"
  by (simp add: udiv32_def)

lemma Calculate_ADC_Average_no_fault: "Calculate_ADC_Average busy s \<noteq> Some (Inl f)"
  by (auto simp: Calculate_ADC_Average_def Let_def udiv32_def UART2_WaitWhileBusy_def
      split: option.splits bind_splits)

section \<open>Bytes outside the printable range\<close>

text \<open>
  C6. A received byte outside 0x20..0x7E is discarded: the call returns, the buffer, the
  index, the enable flag, the accumulator and the transmit log are as before (so the
  byte matches no command and resets nothing), and the receive channel has been armed
  once more. Only \<^verbatim>\<open>rxByte\<close>, where the interrupt left the byte, differs.
\<close>

theorem receive_outside_printable:
  "\<not> (0x20 \<le> (of_char b :: nat) \<and> (of_char b :: nat) \<le> 0x7E) \<Longrightarrow>
   receive busy b s = Some (s\<lparr>rxByte := b, rx_arms := Suc (rx_arms s)\<rparr>)"
proof -
  assume "\<not> (0x20 \<le> (of_char b :: nat) \<and> (of_char b :: nat) \<le> 0x7E)"
  then have "\<not> (0x20 \<le> char_val b \<and> char_val b \<le> 0x7E)"
    by (simp add: char_val_range)
  then have "\<not> (0x20 \<le> char_val (rxByte (s\<lparr>rxByte := b\<rparr>)) \<and>
      char_val (rxByte (s\<lparr>rxByte := b\<rparr>)) \<le> 0x7E)"
    by simp
  then show ?thesis
    by (simp only: receive_def UART_RX_Callback_def if_False) (simp add: UART2_Read_def)
qed

theorem receive_outside_printable_witness:
  "\<not> (0x20 \<le> (of_char (CHR 0x7F) :: nat) \<and> (of_char (CHR 0x7F) :: nat) \<le> 0x7E) \<and>
   receive stuck (CHR 0x7F) initial_state =
     Some (initial_state\<lparr>rxByte := CHR 0x7F, rx_arms := 1\<rparr>)"
  using receive_outside_printable [of "CHR 0x7F" stuck initial_state]
  by (simp add: initial_state_def)

section \<open>The recognizer, byte by byte\<close>

lemma wait_returns:
  assumes "\<not> busy (polls s + d)"
  shows "\<exists>k. UART2_WaitWhileBusy busy s = Some (s\<lparr>polls := k\<rparr>) \<and> polls s < k"
proof -
  from wait_idle_terminates [of busy "polls s" d] assms obtain m
    where m: "wait_idle busy (polls s) = Some m" "polls s < m" by blast
  then have "UART2_WaitWhileBusy busy s = Some (s\<lparr>polls := m\<rparr>)"
    by (simp add: UART2_WaitWhileBusy_def)
  with m(2) show ?thesis by blast
qed

lemma quiet_refl [simp]: "quiet s s"
  by (simp add: quiet_def)

lemma quiet_trans: "quiet s t \<Longrightarrow> quiet t u \<Longrightarrow> quiet s u"
  by (simp add: quiet_def)

lemma rx_ok_initial: "rx_ok initial_state" and line_initial: "line initial_state = []"
  by (simp_all add: rx_ok_def line_def initial_state_def)

lemma rx_ok_empty: "length (rxBuffer s) = 16 \<Longrightarrow> rxIndex s = 0 \<Longrightarrow> rx_ok s \<and> line s = []"
  by (simp add: rx_ok_def line_def)

lemma rx_ok_appended:
  assumes "rx_ok s" "printable b" "length (line s) < 14"
  shows "rx_ok (appended b s)"
proof -
  from assms(1) have lt: "rxIndex s < 15" and len: "length (rxBuffer s) = 16"
    by (simp_all add: rx_ok_def)
  have "unat (rxIndex s + 1) = Suc (unat (rxIndex s))" using unat_index [OF lt] by simp
  moreover have "unat (rxIndex s) < 14" using assms(3) length_line [OF assms(1)] by simp
  ultimately have "rxIndex s + 1 < 15" by (simp add: word_less_nat_alt)
  moreover have "NUL \<notin> set (line (appended b s))"
    using assms(1) printable_not_NUL [OF assms(2)] by (auto simp: line_appended rx_ok_def)
  moreover have "length (rxBuffer (appended b s)) = 16" using len by (simp add: appended_def)
  moreover have "rxIndex (appended b s) = rxIndex s + 1" by (simp add: appended_def)
  ultimately show ?thesis by (simp add: rx_ok_def)
qed

lemma cleared_empty:
  assumes "length (rxBuffer s) = 16"
  shows "rx_ok (cleared s) \<and> line (cleared s) = [] \<and> rxIndex (cleared s) = 0 \<and>
    c_str (rxBuffer (cleared s)) = []"
proof -
  from assms obtain x xs where "rxBuffer s = x # xs" by (cases "rxBuffer s") auto
  with assms show ?thesis
    by (simp add: cleared_def rx_ok_def line_def c_str_Cons)
qed

lemma length_appended: "length (rxBuffer (appended b s)) = length (rxBuffer s)"
  by (simp add: appended_def)

lemma quiet_appended: "quiet s (appended b s)"
  by (simp add: quiet_def appended_def)

lemma quiet_cleared: "quiet s (cleared s)"
  by (simp add: quiet_def cleared_def)

lemma UART2_Read_rx [simp]:
  "rx_ok (UART2_Read s) = rx_ok s" "line (UART2_Read s) = line s"
  "quiet t (UART2_Read s) = quiet t s" "rxIndex (UART2_Read s) = rxIndex s"
  "rxBuffer (UART2_Read s) = rxBuffer s" "rx_arms (UART2_Read s) = Suc (rx_arms s)"
  by (simp_all add: UART2_Read_def rx_ok_def line_def quiet_def)

lemma UART2_Write_rx [simp]:
  "rx_ok (UART2_Write buf n s) = rx_ok s" "line (UART2_Write buf n s) = line s"
  "rxIndex (UART2_Write buf n s) = rxIndex s" "rxBuffer (UART2_Write buf n s) = rxBuffer s"
  by (simp_all add: UART2_Write_def rx_ok_def line_def)

lemma polls_rx [simp]:
  "rx_ok (s\<lparr>polls := k\<rparr>) = rx_ok s" "line (s\<lparr>polls := k\<rparr>) = line s"
  by (simp_all add: rx_ok_def line_def)

lemma receive_keep:
  assumes "rx_ok s" "printable b" "line s @ [b] \<noteq> ''START''" "line s @ [b] \<noteq> ''STOP''"
    "length (line s) < 14"
  shows "receive busy b s = Some (UART2_Read (appended b s))"
  using assms(3-5) by (simp only: receive_printable [OF assms(1,2)] if_False) simp

lemma receive_drop:
  assumes "rx_ok s" "printable b" "line s @ [b] \<noteq> ''START''" "line s @ [b] \<noteq> ''STOP''"
    "length (line s) = 14"
  shows "receive busy b s = Some (UART2_Read (cleared (appended b s)))"
  using assms(3-5) by (simp only: receive_printable [OF assms(1,2)] if_False) simp

lemma receive_all_append:
  "receive_all busy (xs @ ys) s =
     (case receive_all busy xs s of None \<Rightarrow> None | Some s' \<Rightarrow> receive_all busy ys s')"
  by (induction xs arbitrary: s) (auto split: option.splits)

lemma unmatched_append: "unmatched l (xs @ ys) = (unmatched l xs \<and> unmatched (l @ xs) ys)"
  by (induction xs arbitrary: l) auto

lemma unprintable_rx [simp]:
  "rx_ok (s\<lparr>rxByte := b, rx_arms := n\<rparr>) = rx_ok s"
  "line (s\<lparr>rxByte := b, rx_arms := n\<rparr>) = line s"
  "quiet t (s\<lparr>rxByte := b, rx_arms := n\<rparr>) = quiet t s"
  by (simp_all add: rx_ok_def line_def quiet_def)

lemma receive_all_unmatched:
  assumes "rx_ok s" "unmatched (line s) (filter printable bs)"
    "length (line s) + length (filter printable bs) < 15"
  shows "\<exists>s'. receive_all busy bs s = Some s' \<and> rx_ok s' \<and>
    line s' = line s @ filter printable bs \<and> quiet s s' \<and> rx_arms s' = rx_arms s + length bs"
  using assms
proof (induction bs arbitrary: s)
  case Nil
  then show ?case by simp
next
  case (Cons b bs)
  show ?case
  proof (cases "printable b")
    case False
    let ?s1 = "s\<lparr>rxByte := b, rx_arms := Suc (rx_arms s)\<rparr>"
    have r: "receive busy b s = Some ?s1" using False by (rule receive_unprintable)
    from Cons.prems False have "rx_ok ?s1" "unmatched (line ?s1) (filter printable bs)"
      "length (line ?s1) + length (filter printable bs) < 15"
      by simp_all
    from Cons.IH [OF this] obtain s' where
      s': "receive_all busy bs ?s1 = Some s'" "rx_ok s'"
        "line s' = line ?s1 @ filter printable bs" "quiet ?s1 s'"
        "rx_arms s' = rx_arms ?s1 + length bs"
      by blast
    have "receive_all busy (b # bs) s = Some s'" using r s'(1) by simp
    moreover have "line s' = line s @ filter printable (b # bs)" using s'(3) False by simp
    moreover have "quiet s s'" using s'(4) by (simp add: quiet_def)
    moreover have "rx_arms s' = rx_arms s + length (b # bs)" using s'(5) by simp
    ultimately show ?thesis using s'(2) by blast
  next
    case b: True
    let ?s1 = "UART2_Read (appended b s)"
    from Cons.prems b have nm: "line s @ [b] \<noteq> ''START''" "line s @ [b] \<noteq> ''STOP''"
      and short: "length (line s) < 14"
      by simp_all
    have r: "receive busy b s = Some ?s1"
      using Cons.prems(1) b nm short by (rule receive_keep)
    have ok1: "rx_ok ?s1" using rx_ok_appended [OF Cons.prems(1) b short] by simp
    have l0: "line (appended b s) = line s @ [b]" using Cons.prems(1) by (rule line_appended)
    have q1: "quiet s ?s1" by (simp add: quiet_appended)
    have a1: "rx_arms ?s1 = Suc (rx_arms s)" by (simp add: appended_def)
    from Cons.prems b have "unmatched (line ?s1) (filter printable bs)"
      "length (line ?s1) + length (filter printable bs) < 15"
      by (simp_all add: l0)
    from Cons.IH [OF ok1 this] obtain s' where
      s': "receive_all busy bs ?s1 = Some s'" "rx_ok s'"
        "line s' = line ?s1 @ filter printable bs"
        "quiet ?s1 s'" "rx_arms s' = rx_arms ?s1 + length bs"
      by blast
    have "receive_all busy (b # bs) s = Some s'" using r s'(1) by simp
    moreover have "line s' = line s @ filter printable (b # bs)" using s'(3) l0 b by simp
    moreover have "quiet s s'" using q1 s'(4) by (rule quiet_trans)
    moreover have "rx_arms s' = rx_arms s + length (b # bs)" using s'(5) a1 by simp
    ultimately show ?thesis using s'(2) by blast
  qed
qed

lemma receive_all_overflow:
  assumes "rx_ok s" "list_all printable bs" "unmatched (line s) bs"
    "length (line s) + length bs = 15"
  shows "\<exists>s'. receive_all busy bs s = Some s' \<and> rx_ok s' \<and> line s' = [] \<and> rxIndex s' = 0 \<and>
    c_str (rxBuffer s') = [] \<and> quiet s s' \<and> rx_arms s' = rx_arms s + length bs"
proof -
  have "length (line s) < 15"
    using assms(1) length_line [OF assms(1)] unat_index [of "rxIndex s"] by (simp add: rx_ok_def)
  with assms(4) have ne: "bs \<noteq> []" by auto
  define xs b where "xs = butlast bs" and "b = last bs"
  have bs: "bs = xs @ [b]" using ne by (simp add: xs_def b_def)
  from assms(2) have pr: "filter printable xs = xs" "printable b"
    by (simp_all add: bs list_all_iff)
  from assms(3) have um: "unmatched (line s) xs" "unmatched (line s @ xs) [b]"
    by (simp_all add: bs unmatched_append)
  from assms(4) have len: "length (line s) + length xs = 14" by (simp add: bs)
  have "\<exists>s'. receive_all busy xs s = Some s' \<and> rx_ok s' \<and>
      line s' = line s @ filter printable xs \<and> quiet s s' \<and> rx_arms s' = rx_arms s + length xs"
    using assms(1) um(1) len by (intro receive_all_unmatched) (simp_all add: pr)
  then obtain s1 where s1: "receive_all busy xs s = Some s1" "rx_ok s1" "line s1 = line s @ xs"
    "quiet s s1" "rx_arms s1 = rx_arms s + length xs"
    by (auto simp: pr)
  let ?s' = "UART2_Read (cleared (appended b s1))"
  have "line s1 @ [b] \<noteq> ''START''" "line s1 @ [b] \<noteq> ''STOP''" "length (line s1) = 14"
    using um(2) len by (simp_all add: s1(3))
  with s1(2) pr(2) have r: "receive busy b s1 = Some ?s'" by (rule receive_drop)
  have "length (rxBuffer (appended b s1)) = 16" using s1(2) by (simp add: rx_ok_def appended_def)
  from cleared_empty [OF this] have e: "rx_ok ?s'" "line ?s' = []" "rxIndex ?s' = 0"
    "c_str (rxBuffer ?s') = []" by simp_all
  have "quiet s1 (cleared (appended b s1))"
    by (rule quiet_trans [OF quiet_appended quiet_cleared])
  then have "quiet s1 ?s'" by simp
  with s1(4) have q: "quiet s ?s'" by (rule quiet_trans)
  have a: "rx_arms ?s' = rx_arms s + length bs"
    using s1(5) by (simp add: bs cleared_def appended_def)
  have "receive_all busy bs s = Some ?s'"
    using s1(1) r by (simp add: bs receive_all_append)
  with e q a show ?thesis by blast
qed

lemma receive_START:
  assumes "rx_ok s" "printable b" "line s @ [b] = ''START''" "\<not> busy (polls s + d)"
  shows "\<exists>s'. receive busy b s = Some s' \<and> adcEnabled s' \<and> rx_ok s' \<and> line s' = [] \<and>
    rxIndex s' = 0 \<and> c_str (rxBuffer s') = [] \<and>
    tx_log s' = tx_log s @ [''OK_START'' @ CRLF] \<and> rx_arms s' = Suc (rx_arms s) \<and>
    adcSum s' = adcSum s \<and> sampleCount s' = sampleCount s \<and> dataReady s' = dataReady s \<and>
    txBuffer s' = txBuffer s \<and> adc_clears s' = adc_clears s"
proof -
  let ?s3 = "cleared (appended b s\<lparr>adcEnabled := True\<rparr>)"
  have p: "polls ?s3 = polls s" by (simp add: cleared_def appended_def)
  have "\<not> busy (polls ?s3 + d)" unfolding p by (rule assms(4))
  with wait_returns [of busy ?s3 d] obtain k where
    w: "UART2_WaitWhileBusy busy ?s3 = Some (?s3\<lparr>polls := k\<rparr>)" by blast
  let ?s' = "UART2_Read (UART2_Write (c_lit (''OK_START'' @ CRLF)) 10 (?s3\<lparr>polls := k\<rparr>))"
  have r: "receive busy b s = Some ?s'"
    using assms(3) by (simp only: receive_printable [OF assms(1,2)] if_True w) simp
  from assms(1) have "length (rxBuffer (appended b s\<lparr>adcEnabled := True\<rparr>)) = 16"
    by (simp add: rx_ok_def appended_def)
  from cleared_empty [OF this] have e: "rx_ok ?s3" "line ?s3 = []" "rxIndex ?s3 = 0"
    "c_str (rxBuffer ?s3) = []" by simp_all
  have "rx_ok ?s'" "line ?s' = []" "rxIndex ?s' = 0" "c_str (rxBuffer ?s') = []"
    using e by simp_all
  moreover have "adcEnabled ?s'" "tx_log ?s' = tx_log s @ [''OK_START'' @ CRLF]"
    "rx_arms ?s' = Suc (rx_arms s)" "adcSum ?s' = adcSum s" "sampleCount ?s' = sampleCount s"
    "dataReady ?s' = dataReady s" "txBuffer ?s' = txBuffer s" "adc_clears ?s' = adc_clears s"
    by (simp_all add: UART2_Read_def UART2_Write_def cleared_def appended_def c_lit_def CRLF_def)
  ultimately show ?thesis using r by blast
qed

lemma receive_STOP:
  assumes "rx_ok s" "printable b" "line s @ [b] = ''STOP''" "\<not> busy (polls s + d)"
  shows "\<exists>s'. receive busy b s = Some s' \<and> \<not> adcEnabled s' \<and> adcSum s' = 0 \<and>
    sampleCount s' = 0 \<and> \<not> dataReady s' \<and> rx_ok s' \<and> line s' = [] \<and>
    rxIndex s' = 0 \<and> c_str (rxBuffer s') = [] \<and>
    tx_log s' = tx_log s @ [''OK_STOP'' @ CRLF] \<and> rx_arms s' = Suc (rx_arms s) \<and>
    txBuffer s' = txBuffer s \<and> adc_clears s' = adc_clears s"
proof -
  let ?s2 = "appended b s\<lparr>adcEnabled := False, adcSum := 0, sampleCount := 0, dataReady := False\<rparr>"
  let ?s3 = "cleared ?s2"
  have ns: "line s @ [b] \<noteq> ''START''" using assms(3) by simp
  have p: "polls ?s3 = polls s" by (simp add: cleared_def appended_def)
  have "\<not> busy (polls ?s3 + d)" unfolding p by (rule assms(4))
  with wait_returns [of busy ?s3 d] obtain k where
    w: "UART2_WaitWhileBusy busy ?s3 = Some (?s3\<lparr>polls := k\<rparr>)" by blast
  let ?s' = "UART2_Read (UART2_Write (c_lit (''OK_STOP'' @ CRLF)) 9 (?s3\<lparr>polls := k\<rparr>))"
  have r: "receive busy b s = Some ?s'"
    using assms(3) ns by (simp only: receive_printable [OF assms(1,2)] if_True if_False w) simp
  from assms(1) have "length (rxBuffer ?s2) = 16"
    by (simp add: rx_ok_def appended_def)
  from cleared_empty [OF this] have e: "rx_ok ?s3" "line ?s3 = []" "rxIndex ?s3 = 0"
    "c_str (rxBuffer ?s3) = []" by simp_all
  have "rx_ok ?s'" "line ?s' = []" "rxIndex ?s' = 0" "c_str (rxBuffer ?s') = []"
    using e by simp_all
  moreover have "\<not> adcEnabled ?s'" "tx_log ?s' = tx_log s @ [''OK_STOP'' @ CRLF]"
    "rx_arms ?s' = Suc (rx_arms s)" "adcSum ?s' = 0" "sampleCount ?s' = 0"
    "\<not> dataReady ?s'" "txBuffer ?s' = txBuffer s" "adc_clears ?s' = adc_clears s"
    by (simp_all add: UART2_Read_def UART2_Write_def cleared_def appended_def c_lit_def CRLF_def)
  ultimately show ?thesis using r by blast
qed

lemma printable_START: "list_all printable ''START''"
  by (simp add: printable_def)

lemma receive_all_START:
  assumes "rx_ok s" "line s = []" "\<not> busy (polls s + d)"
  shows "\<exists>s'. receive_all busy ''START'' s = Some s' \<and> adcEnabled s' \<and> rx_ok s' \<and> line s' = [] \<and>
    rxIndex s' = 0 \<and> c_str (rxBuffer s') = [] \<and>
    tx_log s' = tx_log s @ [''OK_START'' @ CRLF] \<and> rx_arms s' = rx_arms s + 5 \<and>
    adcSum s' = adcSum s \<and> sampleCount s' = sampleCount s \<and> dataReady s' = dataReady s \<and>
    txBuffer s' = txBuffer s \<and> adc_clears s' = adc_clears s"
proof -
  define xs where "xs = ''STAR''"
  have f: "filter printable xs = xs" and um: "unmatched [] xs" and len: "length xs = 4"
    and full: "xs @ ''T'' = ''START''"
    by (simp_all add: xs_def printable_def)
  have "\<exists>s'. receive_all busy xs s = Some s' \<and> rx_ok s' \<and>
      line s' = line s @ filter printable xs \<and> quiet s s' \<and>
      rx_arms s' = rx_arms s + length xs"
    using assms(1) by (rule receive_all_unmatched) (simp_all add: assms(2) f um len)
  then obtain s1 where s1: "receive_all busy xs s = Some s1" "rx_ok s1"
    "line s1 = xs" "quiet s s1" "rx_arms s1 = rx_arms s + 4"
    by (auto simp: f assms(2) len)
  have T: "printable (CHR ''T'')" by (simp add: printable_def)
  have m: "line s1 @ [CHR ''T''] = ''START''" using full by (simp only: s1(3))
  have "\<not> busy (polls s1 + d)" using assms(3) s1(4) by (simp add: quiet_def)
  with receive_START [of s1 "CHR ''T''" busy d] s1(2) T m obtain s' where
    s': "receive busy (CHR ''T'') s1 = Some s'" "adcEnabled s'" "rx_ok s'" "line s' = []"
      "rxIndex s' = 0" "c_str (rxBuffer s') = []"
      "tx_log s' = tx_log s1 @ [''OK_START'' @ CRLF]" "rx_arms s' = Suc (rx_arms s1)"
      "adcSum s' = adcSum s1" "sampleCount s' = sampleCount s1" "dataReady s' = dataReady s1"
      "txBuffer s' = txBuffer s1" "adc_clears s' = adc_clears s1"
    by blast
  have "receive_all busy (xs @ ''T'') s = Some s'"
    using s1(1) s'(1) by (simp add: receive_all_append)
  then have "receive_all busy ''START'' s = Some s'" by (simp only: full)
  moreover have "tx_log s' = tx_log s @ [''OK_START'' @ CRLF]" "rx_arms s' = rx_arms s + 5"
    "adcSum s' = adcSum s" "sampleCount s' = sampleCount s" "dataReady s' = dataReady s"
    "txBuffer s' = txBuffer s" "adc_clears s' = adc_clears s"
    using s'(7-13) s1(4,5) by (simp_all add: quiet_def)
  ultimately show ?thesis using s'(2-6) by blast
qed

section \<open>The STOP command\<close>

text \<open>
  C3. In a recognizer state where appending the printable byte \<open>b\<close> makes the line
  exactly \<^verbatim>\<open>STOP\<close>, and with a transmitter that is idle at some later poll, the callback
  returns with the enable flag false, the accumulator reset to sum 0, count 0, ready
  false, the line buffer empty (index 0, terminator first) and \<^verbatim>\<open>OK_STOP\r\n\<close> written.
  When sum, count and ready were already zero and false, the accumulator is therefore
  as it was.
\<close>

theorem STOP_recognised:
  assumes "rx_ok s" "printable b" "line s @ [b] = ''STOP''" "\<not> busy (polls s + d)"
  shows "\<exists>s'. receive busy b s = Some s' \<and>
    \<not> adcEnabled s' \<and> adcSum s' = 0 \<and> sampleCount s' = 0 \<and> \<not> dataReady s' \<and>
    rxIndex s' = 0 \<and> c_str (rxBuffer s') = [] \<and> line s' = [] \<and>
    tx_log s' = tx_log s @ [''OK_STOP'' @ CRLF] \<and>
    (adcSum s = 0 \<and> sampleCount s = 0 \<and> \<not> dataReady s \<longrightarrow>
       adcSum s' = adcSum s \<and> sampleCount s' = sampleCount s \<and> dataReady s' = dataReady s)"
proof -
  from receive_STOP [OF assms(1-3), of busy d] assms(4) obtain s' where
    "receive busy b s = Some s'" "\<not> adcEnabled s'" "adcSum s' = 0" "sampleCount s' = 0"
    "\<not> dataReady s'" "rxIndex s' = 0" "c_str (rxBuffer s') = []" "line s' = []"
    "tx_log s' = tx_log s @ [''OK_STOP'' @ CRLF]"
    by blast
  then show ?thesis by auto
qed

theorem STOP_recognised_witness:
  "rx_ok sampling_state \<and> printable (CHR ''P'') \<and> line sampling_state @ [CHR ''P''] = ''STOP'' \<and>
   \<not> idle (polls sampling_state + 0) \<and>
   (\<exists>s'. receive idle (CHR ''P'') sampling_state = Some s' \<and>
      \<not> adcEnabled s' \<and> adcSum s' = 0 \<and> sampleCount s' = 0 \<and> \<not> dataReady s' \<and>
      rxIndex s' = 0 \<and> c_str (rxBuffer s') = [] \<and> line s' = [] \<and>
      tx_log s' = [''OK_STOP'' @ CRLF])"
proof -
  have h: "rx_ok sampling_state" "printable (CHR ''P'')"
    "line sampling_state @ [CHR ''P''] = ''STOP''" "\<not> idle (polls sampling_state + 0)"
    by (simp_all add: rx_ok_def line_def sampling_state_def initial_state_def printable_def
        NUL_def idle_def)
  have "tx_log sampling_state = []" by (simp add: sampling_state_def initial_state_def)
  with STOP_recognised [of sampling_state "CHR ''P''" idle 0] h show ?thesis by auto
qed

section \<open>START, twice\<close>

text \<open>
  C7. From an empty line buffer, and with a transmitter that always becomes idle again,
  the five bytes \<^verbatim>\<open>START\<close> processed twice in a row leave, after each occurrence, the
  enable flag true and the buffer empty; exactly two acknowledgements \<^verbatim>\<open>OK_START\r\n\<close>
  have been appended to the transmit log, and sum, count and ready are what they were
  before the first byte.
\<close>

theorem START_twice:
  assumes "length (rxBuffer s) = 16" "rxIndex s = 0" "\<forall>k. \<exists>d. \<not> busy (k + d)"
  shows "\<exists>s1 s2. receive_all busy ''START'' s = Some s1 \<and> receive_all busy ''START'' s1 = Some s2 \<and>
    adcEnabled s1 \<and> adcEnabled s2 \<and>
    rxIndex s1 = 0 \<and> c_str (rxBuffer s1) = [] \<and> rxIndex s2 = 0 \<and> c_str (rxBuffer s2) = [] \<and>
    tx_log s1 = tx_log s @ [''OK_START'' @ CRLF] \<and>
    tx_log s2 = tx_log s @ [''OK_START'' @ CRLF, ''OK_START'' @ CRLF] \<and>
    adcSum s1 = adcSum s \<and> sampleCount s1 = sampleCount s \<and> dataReady s1 = dataReady s \<and>
    adcSum s2 = adcSum s \<and> sampleCount s2 = sampleCount s \<and> dataReady s2 = dataReady s"
proof -
  from rx_ok_empty [OF assms(1,2)] have ok: "rx_ok s" "line s = []" by simp_all
  from assms(3) obtain d where "\<not> busy (polls s + d)" by blast
  with receive_all_START [of s busy d] ok obtain s1 where
    s1: "receive_all busy ''START'' s = Some s1" "adcEnabled s1" "rx_ok s1" "line s1 = []"
      "rxIndex s1 = 0" "c_str (rxBuffer s1) = []" "tx_log s1 = tx_log s @ [''OK_START'' @ CRLF]"
      "adcSum s1 = adcSum s" "sampleCount s1 = sampleCount s" "dataReady s1 = dataReady s"
    by blast
  from assms(3) obtain d' where "\<not> busy (polls s1 + d')" by blast
  with receive_all_START [of s1 busy d'] s1(3,4) obtain s2 where
    s2: "receive_all busy ''START'' s1 = Some s2" "adcEnabled s2"
      "rxIndex s2 = 0" "c_str (rxBuffer s2) = []" "tx_log s2 = tx_log s1 @ [''OK_START'' @ CRLF]"
      "adcSum s2 = adcSum s1" "sampleCount s2 = sampleCount s1" "dataReady s2 = dataReady s1"
    by blast
  have "tx_log s2 = tx_log s @ [''OK_START'' @ CRLF, ''OK_START'' @ CRLF]"
    using s1(7) s2(5) by simp
  with s1 s2 show ?thesis by (intro exI [of _ s1] exI [of _ s2]) simp
qed

theorem START_twice_witness:
  "length (rxBuffer (initial_state\<lparr>adcSum := 31, sampleCount := 2\<rparr>)) = 16 \<and>
   rxIndex (initial_state\<lparr>adcSum := 31, sampleCount := 2\<rparr>) = 0 \<and>
   (\<forall>k. \<exists>d. \<not> idle (k + d)) \<and>
   (\<exists>s1 s2. receive_all idle ''START'' (initial_state\<lparr>adcSum := 31, sampleCount := 2\<rparr>) = Some s1 \<and>
      receive_all idle ''START'' s1 = Some s2 \<and> adcEnabled s1 \<and> adcEnabled s2 \<and>
      tx_log s2 = [''OK_START'' @ CRLF, ''OK_START'' @ CRLF] \<and>
      adcSum s2 = 31 \<and> sampleCount s2 = 2 \<and> \<not> dataReady s2)"
proof -
  let ?s = "initial_state\<lparr>adcSum := 31, sampleCount := 2\<rparr>"
  have h: "length (rxBuffer ?s) = 16" "rxIndex ?s = 0" "\<forall>k. \<exists>d. \<not> idle (k + d)"
    by (simp_all add: initial_state_def idle_def)
  have v: "tx_log ?s = []" "adcSum ?s = 31" "sampleCount ?s = 2" "\<not> dataReady ?s"
    by (simp_all add: initial_state_def)
  from START_twice [OF h] obtain s1 s2 where
    "receive_all idle ''START'' ?s = Some s1" "receive_all idle ''START'' s1 = Some s2"
    "adcEnabled s1" "adcEnabled s2"
    "tx_log s2 = tx_log ?s @ [''OK_START'' @ CRLF, ''OK_START'' @ CRLF]"
    "adcSum s2 = adcSum ?s" "sampleCount s2 = sampleCount ?s" "dataReady s2 = dataReady ?s"
    by blast
  with v have "receive_all idle ''START'' ?s = Some s1 \<and>
      receive_all idle ''START'' s1 = Some s2 \<and> adcEnabled s1 \<and> adcEnabled s2 \<and>
      tx_log s2 = [''OK_START'' @ CRLF, ''OK_START'' @ CRLF] \<and>
      adcSum s2 = 31 \<and> sampleCount s2 = 2 \<and> \<not> dataReady s2"
    by simp
  then have "\<exists>s1 s2. receive_all idle ''START'' ?s = Some s1 \<and>
      receive_all idle ''START'' s1 = Some s2 \<and> adcEnabled s1 \<and> adcEnabled s2 \<and>
      tx_log s2 = [''OK_START'' @ CRLF, ''OK_START'' @ CRLF] \<and>
      adcSum s2 = 31 \<and> sampleCount s2 = 2 \<and> \<not> dataReady s2"
    by blast
  with h show ?thesis by blast
qed

section \<open>A line that fills the buffer\<close>

text \<open>
  C8. When printable bytes bring the line to 15 characters without the line ever being
  exactly \<^verbatim>\<open>START\<close> or \<^verbatim>\<open>STOP\<close>, the recognizer ends with an empty buffer, has written
  no acknowledgement, and the enable flag and the accumulator are unchanged.
\<close>

theorem overflow_line_dropped:
  assumes "rx_ok s" "list_all printable bs" "unmatched (line s) bs"
    "length (line s) + length bs = 15"
  shows "\<exists>s'. receive_all busy bs s = Some s' \<and>
    rxIndex s' = 0 \<and> c_str (rxBuffer s') = [] \<and> line s' = [] \<and>
    tx_log s' = tx_log s \<and> adcEnabled s' = adcEnabled s \<and>
    adcSum s' = adcSum s \<and> sampleCount s' = sampleCount s \<and> dataReady s' = dataReady s"
proof -
  from receive_all_overflow [OF assms, of busy] obtain s' where
    "receive_all busy bs s = Some s'" "line s' = []" "rxIndex s' = 0"
    "c_str (rxBuffer s') = []" "quiet s s'"
    by blast
  then show ?thesis by (auto simp: quiet_def)
qed

theorem overflow_line_dropped_witness:
  "rx_ok sampling_state \<and> list_all printable ''RM WARNING 1'' \<and>
   unmatched (line sampling_state) ''RM WARNING 1'' \<and>
   length (line sampling_state) + length ''RM WARNING 1'' = 15 \<and>
   (\<exists>s'. receive_all stuck ''RM WARNING 1'' sampling_state = Some s' \<and>
      rxIndex s' = 0 \<and> c_str (rxBuffer s') = [] \<and> line s' = [] \<and>
      tx_log s' = [] \<and> adcEnabled s' \<and> adcSum s' = 60 \<and> sampleCount s' = 3 \<and>
      \<not> dataReady s')"
proof -
  define bs where "bs = ''RM WARNING 1''"
  have l: "line sampling_state = ''STO''"
    by (simp add: line_def sampling_state_def initial_state_def)
  have h: "rx_ok sampling_state" "list_all printable bs" "unmatched (line sampling_state) bs"
    "length (line sampling_state) + length bs = 15"
    by (simp_all add: l bs_def printable_def)
      (simp add: rx_ok_def line_def sampling_state_def initial_state_def NUL_def)
  have v: "tx_log sampling_state = []" "adcEnabled sampling_state" "adcSum sampling_state = 60"
    "sampleCount sampling_state = 3" "\<not> dataReady sampling_state"
    by (simp_all add: sampling_state_def initial_state_def)
  from overflow_line_dropped [OF h, of stuck] obtain s' where
    "receive_all stuck bs sampling_state = Some s'" "rxIndex s' = 0" "c_str (rxBuffer s') = []"
    "line s' = []" "tx_log s' = tx_log sampling_state" "adcEnabled s' = adcEnabled sampling_state"
    "adcSum s' = adcSum sampling_state" "sampleCount s' = sampleCount sampling_state"
    "dataReady s' = dataReady sampling_state"
    by blast
  then have "\<exists>s'. receive_all stuck bs sampling_state = Some s' \<and>
      rxIndex s' = 0 \<and> c_str (rxBuffer s') = [] \<and> line s' = [] \<and>
      tx_log s' = [] \<and> adcEnabled s' \<and> adcSum s' = 60 \<and> sampleCount s' = 3 \<and>
      \<not> dataReady s'"
    using v by auto
  with h show ?thesis unfolding bs_def by blast
qed

section \<open>An unrecognized prefix\<close>

text \<open>
  C4. After power-up, the printable bytes \<^verbatim>\<open>AB\<close> followed by \<^verbatim>\<open>START\<close> are not
  recognized as a command, whatever the transmitter does: the enable flag is still
  false, nothing has been written and the line is \<^verbatim>\<open>ABSTART\<close>. A carriage return and
  a line feed between the two change nothing, since they are filtered. Only when eight
  more printable bytes fill the buffer to 15 characters is the line reset.
\<close>

theorem prefix_blocks_START:
  "(\<exists>s'. receive_all busy (''AB'' @ ''START'') initial_state = Some s' \<and>
      \<not> adcEnabled s' \<and> tx_log s' = [] \<and> line s' = ''ABSTART'') \<and>
   (\<exists>s'. receive_all busy (''AB'' @ CRLF @ ''START'') initial_state = Some s' \<and>
      \<not> adcEnabled s' \<and> tx_log s' = [] \<and> line s' = ''ABSTART'') \<and>
   (\<exists>s'. receive_all busy (''AB'' @ ''START'' @ ''12345678'') initial_state = Some s' \<and>
      \<not> adcEnabled s' \<and> tx_log s' = [] \<and> line s' = [])"
proof -
  define bs1 bs2 bs3 where "bs1 = ''AB'' @ ''START''" and "bs2 = ''AB'' @ CRLF @ ''START''"
    and "bs3 = ''AB'' @ ''START'' @ ''12345678''"
  have v: "\<not> adcEnabled initial_state" "tx_log initial_state = []"
    by (simp_all add: initial_state_def)
  have f1: "filter printable bs1 = ''ABSTART''" and f2: "filter printable bs2 = ''ABSTART''"
    by (simp_all add: bs1_def bs2_def CRLF_def printable_def)
  have um: "unmatched [] ''ABSTART''" by simp
  have "\<exists>s'. receive_all busy bs1 initial_state = Some s' \<and> rx_ok s' \<and>
      line s' = line initial_state @ filter printable bs1 \<and> quiet initial_state s' \<and>
      rx_arms s' = rx_arms initial_state + length bs1"
    using rx_ok_initial by (rule receive_all_unmatched) (simp_all add: line_initial f1)
  then have c1: "\<exists>s'. receive_all busy bs1 initial_state = Some s' \<and>
      \<not> adcEnabled s' \<and> tx_log s' = [] \<and> line s' = ''ABSTART''"
    using v by (auto simp: line_initial f1 quiet_def)
  have "\<exists>s'. receive_all busy bs2 initial_state = Some s' \<and> rx_ok s' \<and>
      line s' = line initial_state @ filter printable bs2 \<and> quiet initial_state s' \<and>
      rx_arms s' = rx_arms initial_state + length bs2"
    using rx_ok_initial by (rule receive_all_unmatched) (simp_all add: line_initial f2)
  then have c2: "\<exists>s'. receive_all busy bs2 initial_state = Some s' \<and>
      \<not> adcEnabled s' \<and> tx_log s' = [] \<and> line s' = ''ABSTART''"
    using v by (auto simp: line_initial f2 quiet_def)
  have "list_all printable bs3" "unmatched (line initial_state) bs3"
    "length (line initial_state) + length bs3 = 15"
    by (simp_all add: line_initial bs3_def printable_def)
  from receive_all_overflow [OF rx_ok_initial this, of busy] have c3:
    "\<exists>s'. receive_all busy bs3 initial_state = Some s' \<and>
      \<not> adcEnabled s' \<and> tx_log s' = [] \<and> line s' = []"
    using v by (auto simp: quiet_def)
  from c1 c2 c3 show ?thesis unfolding bs1_def bs2_def bs3_def by blast
qed

section \<open>Decimal output\<close>

lemma digit_in: "d < 10 \<Longrightarrow> digit d \<in> set ''0123456789''"
  unfolding digit_def by (rule nth_mem) simp

lemma dec_digits_chars: "set (dec_digits n) \<subseteq> set ''0123456789''"
proof (induction n rule: dec_digits.induct)
  case (1 n)
  show ?case
  proof (cases "n < 10")
    case True
    then show ?thesis using digit_in [of n] by (subst dec_digits.simps) simp
  next
    case False
    have "n mod 10 < 10" by simp
    from digit_in [OF this] 1 [OF False] False show ?thesis
      by (subst dec_digits.simps) simp
  qed
qed

lemma dec_digits_no_NUL: "NUL \<notin> set (dec_digits n)"
proof
  assume "NUL \<in> set (dec_digits n)"
  with dec_digits_chars [of n] have "NUL \<in> set ''0123456789''" by blast
  then show False by (simp add: NUL_def)
qed

lemma dec_digits_length: "n < 10 ^ k \<Longrightarrow> 0 < k \<Longrightarrow> length (dec_digits n) \<le> k"
proof (induction n arbitrary: k rule: dec_digits.induct)
  case (1 n)
  show ?case
  proof (cases "n < 10")
    case True
    then show ?thesis using 1(3) by (subst dec_digits.simps) simp
  next
    case False
    from 1(3) obtain j where k: "k = Suc j" by (cases k) auto
    with False 1(2) have "0 < j" by (cases j) auto
    moreover from 1(2) k have "n div 10 < 10 ^ j" by (simp add: less_mult_imp_div_less)
    ultimately have "length (dec_digits (n div 10)) \<le> j" using 1(1) [OF False] by blast
    with False k show ?thesis by (subst dec_digits.simps) simp
  qed
qed

lemma sprintf_c_str: "c_str (sprintf_u_crlf buf v) = dec_digits (unat v) @ CRLF"
proof -
  have "NUL \<notin> set (dec_digits (unat v) @ CRLF)"
    using dec_digits_no_NUL [of "unat v"] by (simp add: CRLF_def NUL_def)
  then have "c_str ((dec_digits (unat v) @ CRLF) @ NUL # drop (length (c_lit (dec_digits (unat v) @ CRLF))) buf)
      = dec_digits (unat v) @ CRLF"
    by (rule c_str_append)
  then show ?thesis by (simp add: sprintf_u_crlf_def Let_def c_lit_def)
qed

lemma sprintf_take: "take (strlen (sprintf_u_crlf buf v)) (sprintf_u_crlf buf v) = dec_digits (unat v) @ CRLF"
proof -
  have "strlen (sprintf_u_crlf buf v) = length (dec_digits (unat v) @ CRLF)"
    by (simp only: strlen_def sprintf_c_str)
  then show ?thesis by (simp add: sprintf_u_crlf_def Let_def c_lit_def)
qed

lemma sprintf_length:
  assumes "length buf = 64"
  shows "length (sprintf_u_crlf buf v) = 64"
proof -
  have "unat v < 10 ^ 10" using unsigned_less [of v, where ?'a = nat] by simp
  then have "length (dec_digits (unat v)) \<le> 10" by (rule dec_digits_length) simp
  then show ?thesis using assms by (simp add: sprintf_u_crlf_def Let_def c_lit_def CRLF_def)
qed

lemma Calculate_ADC_Average_reports:
  assumes "sampleCount s \<noteq> 0" "\<not> busy (polls s + d)"
  shows "\<exists>s'. Calculate_ADC_Average busy s = Some (Inr s') \<and>
    tx_log s' = tx_log s @ [dec_digits (unat (adcSum s) div unat (sampleCount s)) @ CRLF] \<and>
    adcSum s' = 0 \<and> sampleCount s' = 0 \<and> \<not> dataReady s' \<and>
    adcEnabled s' = adcEnabled s \<and> rxBuffer s' = rxBuffer s \<and> rxIndex s' = rxIndex s"
proof -
  let ?s1 = "s\<lparr>adcSum := 0, sampleCount := 0, dataReady := False\<rparr>"
  have "\<not> busy (polls ?s1 + d)" using assms(2) by simp
  with wait_returns [of busy ?s1 d] obtain k where
    w: "UART2_WaitWhileBusy busy ?s1 = Some (?s1\<lparr>polls := k\<rparr>)" by blast
  have u: "unat (adcSum s div sampleCount s) = unat (adcSum s) div unat (sampleCount s)"
    by (simp add: unat_div)
  show ?thesis
    using assms(1)
    by (simp add: Calculate_ADC_Average_def Let_def udiv32_def w UART2_Write_def sprintf_take u)
qed

lemma of_char_digit: "d < 10 \<Longrightarrow> (of_char (digit d) :: nat) = 48 + d"
proof -
  assume "d < 10"
  then have "d = 0 \<or> d = 1 \<or> d = 2 \<or> d = 3 \<or> d = 4 \<or> d = 5 \<or> d = 6 \<or> d = 7 \<or> d = 8 \<or> d = 9"
    by arith
  then show ?thesis by (auto simp: digit_def)
qed

lemma dec_value_dec_digits: "dec_value (dec_digits n) = n"
proof (induction n rule: dec_digits.induct)
  case (1 n)
  show ?case
  proof (cases "n < 10")
    case True
    then show ?thesis by (subst dec_digits.simps) (simp add: dec_value_def of_char_digit)
  next
    case False
    have "n mod 10 < 10" by simp
    from of_char_digit [OF this] 1 [OF False] False show ?thesis
      by (subst dec_digits.simps) (simp add: dec_value_def)
  qed
qed

section \<open>The reported average\<close>

text \<open>
  C1. When the snapshotted count is not zero and the transmitter is idle at some later
  poll, \<^verbatim>\<open>Calculate_ADC_Average\<close> returns and has transmitted exactly one string: the
  decimal digits of the floor of sum divided by count, followed by \<^verbatim>\<open>\r\n\<close>. The
  digits denote that quotient. For the samples 10, 20, 30 the string is \<^verbatim>\<open>20\r\n\<close>; for
  10, 21, 10 (sum 41, count 3) it is \<^verbatim>\<open>13\r\n\<close>.
\<close>

theorem average_reported:
  assumes "sampleCount s \<noteq> 0" "\<not> busy (polls s + d)"
  shows "\<exists>s'. Calculate_ADC_Average busy s = Some (Inr s') \<and>
    tx_log s' = tx_log s @ [dec_digits (unat (adcSum s) div unat (sampleCount s)) @ CRLF] \<and>
    dec_value (dec_digits (unat (adcSum s) div unat (sampleCount s))) =
      unat (adcSum s) div unat (sampleCount s)"
  using Calculate_ADC_Average_reports [OF assms(1), of busy d] assms(2)
  by (auto simp: dec_value_dec_digits)

theorem average_reported_witness:
  "(sampleCount (sample_all [10, 20, 30] enabled_state) \<noteq> 0 \<and>
    \<not> idle (polls (sample_all [10, 20, 30] enabled_state) + 0) \<and>
    (\<exists>s'. Calculate_ADC_Average idle (sample_all [10, 20, 30] enabled_state) = Some (Inr s') \<and>
       tx_log s' = [''20'' @ CRLF])) \<and>
   (sampleCount (sample_all [10, 21, 10] enabled_state) \<noteq> 0 \<and>
    \<not> idle (polls (sample_all [10, 21, 10] enabled_state) + 0) \<and>
    (\<exists>s'. Calculate_ADC_Average idle (sample_all [10, 21, 10] enabled_state) = Some (Inr s') \<and>
       tx_log s' = [''13'' @ CRLF]))"
proof -
  define a b where "a = sample_all [10, 20, 30] enabled_state"
    and "b = sample_all [10, 21, 10] enabled_state"
  have va: "adcSum a = 60" "sampleCount a = 3" "tx_log a = []" "polls a = 0"
    and vb: "adcSum b = 41" "sampleCount b = 3" "tx_log b = []" "polls b = 0"
    unfolding a_def b_def by code_simp+
  have d: "dec_digits 20 = ''20''" "dec_digits 13 = ''13''"
    by (simp_all add: dec_digits.simps digit_def)
  have ha: "sampleCount a \<noteq> 0" "\<not> idle (polls a + 0)"
    and hb: "sampleCount b \<noteq> 0" "\<not> idle (polls b + 0)"
    by (simp_all add: va vb idle_def)
  from average_reported [of a idle 0] ha
  have "\<exists>s'. Calculate_ADC_Average idle a = Some (Inr s') \<and> tx_log s' = [''20'' @ CRLF]"
    by (auto simp: va d)
  moreover from average_reported [of b idle 0] hb
  have "\<exists>s'. Calculate_ADC_Average idle b = Some (Inr s') \<and> tx_log s' = [''13'' @ CRLF]"
    by (auto simp: vb d)
  ultimately show ?thesis using ha hb unfolding a_def b_def by blast
qed

section \<open>The window invariant\<close>

lemma receive_accumulator:
  assumes "receive busy b s = Some s'"
  shows "(adcSum s' = adcSum s \<and> sampleCount s' = sampleCount s \<and> dataReady s' = dataReady s) \<or>
    (adcSum s' = 0 \<and> sampleCount s' = 0 \<and> \<not> dataReady s')"
  using assms
  by (auto simp: receive_def UART_RX_Callback_def Let_def UART2_WaitWhileBusy_def
      UART2_Read_def UART2_Write_def split: if_splits option.splits bind_splits)

lemma Calculate_ADC_Average_resets:
  assumes "Calculate_ADC_Average busy s = Some (Inr s')"
  shows "adcSum s' = 0 \<and> sampleCount s' = 0 \<and> \<not> dataReady s'"
  using assms
  by (auto simp: Calculate_ADC_Average_def Let_def udiv32_def UART2_WaitWhileBusy_def
      UART2_Write_def split: if_splits option.splits bind_splits)

lemma window_inv_zero: "sampleCount s = 0 \<Longrightarrow> \<not> dataReady s \<Longrightarrow> window_inv s"
  by (simp add: window_inv_def ADC_SAMPLE_COUNT_def)

lemma count_step:
  fixes c :: "32 word"
  assumes "c \<le> 1200" "c \<noteq> 1200"
  shows "c + 1 \<le> 1200"
  using assms by unat_arith

lemma window_inv_ADC_Callback:
  assumes "window_inv s" "\<not> dataReady s"
  shows "window_inv (ADC_Callback x s)"
proof -
  from assms have "sampleCount s \<le> 1200" "sampleCount s \<noteq> 1200"
    by (simp_all add: window_inv_def ADC_SAMPLE_COUNT_def)
  then have "sampleCount s + 1 \<le> 1200" by (rule count_step)
  with assms show ?thesis
    by (auto simp: window_inv_def ADC_Callback_def Let_def EVIC_SourceStatusClear_def
        ADC_SAMPLE_COUNT_def)
qed

lemma window_inv_step:
  assumes "window_inv s" "step busy e s = Some (Inr s')"
    "case e of Conversion x \<Rightarrow> \<not> dataReady s | _ \<Rightarrow> True"
  shows "window_inv s'"
proof (cases e)
  case (Conversion x)
  with assms show ?thesis by (auto simp: window_inv_ADC_Callback)
next
  case (Byte b)
  with assms(2) have "receive busy b s = Some s'" by auto
  from receive_accumulator [OF this] assms(1) show ?thesis
    by (auto simp: window_inv_def ADC_SAMPLE_COUNT_def)
next
  case Report
  with assms(2) have "Calculate_ADC_Average busy s = Some (Inr s')" by simp
  from Calculate_ADC_Average_resets [OF this] show ?thesis by (simp add: window_inv_zero)
qed

lemma window_inv_run:
  assumes "window_inv s" "run busy evs s = Some (Inr s')" "timely busy evs s"
  shows "window_inv s'"
  using assms
proof (induction evs arbitrary: s)
  case Nil
  then show ?case by simp
next
  case (Cons e evs)
  from Cons.prems(2) obtain s1 where
    s1: "step busy e s = Some (Inr s1)" "run busy evs s1 = Some (Inr s')"
    by (auto split: option.splits sum.splits)
  from Cons.prems(3) s1(1) have t: "case e of Conversion x \<Rightarrow> \<not> dataReady s | _ \<Rightarrow> True"
    "timely busy evs s1"
    by simp_all
  from Cons.prems(1) s1(1) t(1) have "window_inv s1" by (rule window_inv_step)
  from Cons.IH [OF this s1(2) t(2)] show ?case .
qed

text \<open>
  C2, as the code has it. In every state reached from power-up by a timely sequence of
  conversions, received bytes and reporter runs, \<^verbatim>\<open>sampleCount\<close> is at most
  \<^verbatim>\<open>ADC_SAMPLE_COUNT\<close>, and \<^verbatim>\<open>dataReady\<close> implies that \<^verbatim>\<open>sampleCount\<close> equals
  \<^verbatim>\<open>ADC_SAMPLE_COUNT\<close>.
\<close>

theorem count_bounded_when_drained:
  assumes "run busy evs initial_state = Some (Inr s)" "timely busy evs initial_state"
  shows "sampleCount s \<le> ADC_SAMPLE_COUNT \<and> (dataReady s \<longrightarrow> sampleCount s = ADC_SAMPLE_COUNT)"
proof -
  have "window_inv initial_state" by (simp add: window_inv_zero initial_state_def)
  from window_inv_run [OF this assms] show ?thesis by (simp add: window_inv_def)
qed

lemma run_append:
  "run busy (xs @ ys) s =
     (case run busy xs s of
        None \<Rightarrow> None
      | Some (Inl f) \<Rightarrow> Some (Inl f)
      | Some (Inr s') \<Rightarrow> run busy ys s')"
  by (induction xs arbitrary: s) (auto split: option.splits sum.splits)

lemma run_bytes: "run busy (map Byte bs) s = map_option Inr (receive_all busy bs s)"
  by (induction bs arbitrary: s) (auto split: option.splits)

lemma run_conversions: "run busy (map Conversion xs) s = Some (Inr (sample_all xs s))"
  by (induction xs arbitrary: s) auto

lemma timely_append:
  "timely busy (xs @ ys) s =
     (timely busy xs s \<and>
      (case run busy xs s of Some (Inr s') \<Rightarrow> timely busy ys s' | _ \<Rightarrow> True))"
  by (induction xs arbitrary: s) (auto split: option.splits sum.splits)

lemma timely_bytes: "timely busy (map Byte bs) s"
  by (induction bs arbitrary: s) (auto split: option.splits sum.splits)

lemma sample_all_snoc: "sample_all (xs @ [x]) s = ADC_Callback x (sample_all xs s)"
  by (induction xs arbitrary: s) auto

lemma replicate_snoc: "replicate (Suc n) x = replicate n x @ [x]"
  by (simp add: replicate_append_same)

lemma unat_count_Suc:
  fixes c :: "32 word"
  assumes "unat c < 1200"
  shows "unat (c + 1) = Suc (unat c)"
proof -
  from assms have "unat c + unat (1 :: 32 word) < 2 ^ LENGTH(32)" by simp
  then have "unat (c + 1) = unat c + unat (1 :: 32 word)" by (rule unat_add_lem [THEN iffD1])
  then show ?thesis by simp
qed

lemma ADC_Callback_enabled:
  assumes "adcEnabled s"
  shows "adcEnabled (ADC_Callback x s)" "sampleCount (ADC_Callback x s) = sampleCount s + 1"
    "adcSum (ADC_Callback x s) = adcSum s + x"
    "dataReady (ADC_Callback x s) = (dataReady s \<or> ADC_SAMPLE_COUNT \<le> sampleCount s + 1)"
  using assms by (simp_all add: ADC_Callback_def Let_def EVIC_SourceStatusClear_def)

lemma sample_all_enabled:
  assumes "adcEnabled s"
  shows "adcEnabled (sample_all xs s) \<and>
    sampleCount (sample_all xs s) = sampleCount s + of_nat (length xs)"
  using assms
proof (induction xs arbitrary: s)
  case Nil
  then show ?case by simp
next
  case (Cons x xs)
  from ADC_Callback_enabled(1,2) [OF Cons.prems, of x] Cons.IH [of "ADC_Callback x s"]
  show ?case by simp
qed

lemma timely_conversions:
  assumes "adcEnabled s" "window_inv s" "unat (sampleCount s) + length xs \<le> 1200"
  shows "timely busy (map Conversion xs) s"
  using assms
proof (induction xs arbitrary: s)
  case Nil
  then show ?case by simp
next
  case (Cons x xs)
  from Cons.prems(3) have lt: "unat (sampleCount s) < 1200" by simp
  then have ne: "sampleCount s \<noteq> ADC_SAMPLE_COUNT" by (auto simp: ADC_SAMPLE_COUNT_def)
  with Cons.prems(2) have nr: "\<not> dataReady s" by (simp add: window_inv_def)
  have e: "adcEnabled (ADC_Callback x s)" using Cons.prems(1) by (rule ADC_Callback_enabled)
  have w: "window_inv (ADC_Callback x s)" using Cons.prems(2) nr by (rule window_inv_ADC_Callback)
  have "unat (sampleCount s + 1) = Suc (unat (sampleCount s))" using lt by (rule unat_count_Suc)
  then have "unat (sampleCount (ADC_Callback x s)) + length xs \<le> 1200"
    using Cons.prems(3) by (simp add: ADC_Callback_enabled(2) [OF Cons.prems(1)])
  from Cons.IH [OF e w this] nr show ?case by simp
qed

text \<open>
  C2, as stated, fails for arbitrary interleavings: \<^verbatim>\<open>ADC_Callback\<close> compares with
  \<^verbatim>\<open>>=\<close> and never resets, so after \<^verbatim>\<open>START\<close> and 1201 conversions without a run of
  the reporter the count is 1201 and \<^verbatim>\<open>dataReady\<close> has just been set once more.
\<close>

theorem count_exceeds_window:
  "map_option (map_sum id sampleCount) (run idle overrun_events initial_state) =
     Some (Inr 1201) \<and>
   map_option (map_sum id dataReady) (run idle overrun_events initial_state) =
     Some (Inr True) \<and>
   \<not> (1201 :: 32 word) \<le> ADC_SAMPLE_COUNT"
proof -
  have "\<not> idle (polls initial_state + 0)" by (simp add: idle_def)
  with receive_all_START [of initial_state idle 0] rx_ok_initial line_initial obtain s1 where
    s1: "receive_all idle ''START'' initial_state = Some s1" "adcEnabled s1"
      "sampleCount s1 = sampleCount initial_state"
    by blast
  define xs :: "32 word list" where "xs = replicate 1200 1"
  have len: "length xs = 1200" by (simp add: xs_def)
  let ?s2 = "sample_all xs s1"
  have c0: "sampleCount s1 = 0" using s1(3) by (simp add: initial_state_def)
  from sample_all_enabled [OF s1(2), of xs] have s2: "adcEnabled ?s2" "sampleCount ?s2 = 1200"
    by (simp_all add: len c0)
  have "(1201 :: nat) = Suc 1200" by simp
  then have rep: "replicate 1201 (1 :: 32 word) = xs @ [1]"
    unfolding xs_def by (simp only: replicate_snoc)
  have r0: "run idle (map Byte ''START'') initial_state = Some (Inr s1)"
    by (simp only: run_bytes s1(1) option.map)
  have r1: "run idle (map Conversion (xs @ [1])) s1 = Some (Inr (ADC_Callback 1 ?s2))"
    by (simp only: run_conversions sample_all_snoc)
  have r: "run idle overrun_events initial_state = Some (Inr (ADC_Callback 1 ?s2))"
    unfolding overrun_events_def rep by (simp only: run_append r0 r1 option.case sum.case)
  have "sampleCount (ADC_Callback 1 ?s2) = 1201" "dataReady (ADC_Callback 1 ?s2)"
    by (simp_all add: ADC_Callback_enabled [OF s2(1)] s2(2) ADC_SAMPLE_COUNT_def word_le_nat_alt)
  moreover have "\<not> (1201 :: 32 word) \<le> ADC_SAMPLE_COUNT"
    by (simp add: ADC_SAMPLE_COUNT_def word_le_nat_alt)
  ultimately show ?thesis by (simp add: r)
qed

theorem count_bounded_when_drained_witness:
  "\<exists>s. run idle full_window_events initial_state = Some (Inr s) \<and>
     timely idle full_window_events initial_state \<and>
     sampleCount s \<le> ADC_SAMPLE_COUNT \<and> dataReady s \<and> sampleCount s = ADC_SAMPLE_COUNT"
proof -
  have "\<not> idle (polls initial_state + 0)" by (simp add: idle_def)
  with receive_all_START [of initial_state idle 0] rx_ok_initial line_initial obtain s1 where
    s1: "receive_all idle ''START'' initial_state = Some s1" "adcEnabled s1"
      "sampleCount s1 = sampleCount initial_state" "dataReady s1 = dataReady initial_state"
    by blast
  have c0: "sampleCount s1 = 0" "\<not> dataReady s1" using s1(3,4) by (simp_all add: initial_state_def)
  define xs :: "32 word list" where "xs = replicate 1199 1"
  have len: "length xs = 1199" by (simp add: xs_def)
  have "(1200 :: nat) = Suc 1199" by simp
  then have rep: "replicate 1200 (1 :: 32 word) = xs @ [1]"
    unfolding xs_def by (simp only: replicate_snoc)
  let ?s2 = "sample_all xs s1"
  from sample_all_enabled [OF s1(2), of xs] have s2: "adcEnabled ?s2" "sampleCount ?s2 = 1199"
    by (simp_all add: len c0)
  have r0: "run idle (map Byte ''START'') initial_state = Some (Inr s1)"
    by (simp only: run_bytes s1(1) option.map)
  have r1: "run idle (map Conversion (xs @ [1])) s1 = Some (Inr (ADC_Callback 1 ?s2))"
    by (simp only: run_conversions sample_all_snoc)
  have r: "run idle full_window_events initial_state = Some (Inr (ADC_Callback 1 ?s2))"
    unfolding full_window_events_def rep by (simp only: run_append r0 r1 option.case sum.case)
  have w1: "window_inv s1" using c0 by (rule window_inv_zero)
  have "timely idle (map Conversion (replicate 1200 1)) s1"
    using s1(2) w1 by (rule timely_conversions) (simp add: c0)
  then have t: "timely idle full_window_events initial_state"
    unfolding full_window_events_def
    by (simp only: timely_append timely_bytes r0 option.case sum.case simp_thms)
  have d: "dataReady (ADC_Callback 1 ?s2)"
    by (simp add: ADC_Callback_enabled [OF s2(1)] s2(2) ADC_SAMPLE_COUNT_def)
  from count_bounded_when_drained [OF r t] d
  have "sampleCount (ADC_Callback 1 ?s2) \<le> ADC_SAMPLE_COUNT \<and> dataReady (ADC_Callback 1 ?s2) \<and>
      sampleCount (ADC_Callback 1 ?s2) = ADC_SAMPLE_COUNT"
    by simp
  with r t show ?thesis by blast
qed

section \<open>The running sum does not wrap\<close>

lemma sum_list_bounded:
  assumes "\<forall>x\<in>set xs. f x \<le> (m :: nat)"
  shows "sum_list (map f xs) \<le> length xs * m"
  using assms by (induction xs) auto

lemma sample_all_exact:
  assumes "adcEnabled s"
    "unat (adcSum s) + sum_list (map unat xs) < 2 ^ 32"
    "unat (sampleCount s) + length xs < 2 ^ 32"
  shows "unat (adcSum (sample_all xs s)) = unat (adcSum s) + sum_list (map unat xs) \<and>
    unat (sampleCount (sample_all xs s)) = unat (sampleCount s) + length xs"
  using assms
proof (induction xs arbitrary: s)
  case Nil
  then show ?case by simp
next
  case (Cons x xs)
  let ?s1 = "ADC_Callback x s"
  have e: "adcEnabled ?s1" using Cons.prems(1) by (rule ADC_Callback_enabled)
  from Cons.prems(2) have "unat (adcSum s) + unat x < 2 ^ LENGTH(32)" by simp
  then have a: "unat (adcSum s + x) = unat (adcSum s) + unat x"
    by (rule unat_add_lem [THEN iffD1])
  from Cons.prems(3) have "unat (sampleCount s) + unat (1 :: 32 word) < 2 ^ LENGTH(32)" by simp
  then have "unat (sampleCount s + 1) = unat (sampleCount s) + unat (1 :: 32 word)"
    by (rule unat_add_lem [THEN iffD1])
  then have c: "unat (sampleCount s + 1) = Suc (unat (sampleCount s))" by simp
  have s1: "unat (adcSum ?s1) = unat (adcSum s) + unat x"
    "unat (sampleCount ?s1) = Suc (unat (sampleCount s))"
    by (simp_all add: ADC_Callback_enabled [OF Cons.prems(1)] a c)
  from Cons.prems(2,3) have "unat (adcSum ?s1) + sum_list (map unat xs) < 2 ^ 32"
    "unat (sampleCount ?s1) + length xs < 2 ^ 32"
    by (simp_all add: s1)
  from Cons.IH [OF e this] show ?case by (simp add: s1)
qed

lemma window_fits: "r \<le> 21 \<Longrightarrow> unat ADC_SAMPLE_COUNT * (2 ^ r - 1) < (2 :: nat) ^ 32"
proof -
  assume "r \<le> 21"
  then have "(2 :: nat) ^ r \<le> 2 ^ 21" by (rule power_increasing) simp
  then have "(2 :: nat) ^ r - 1 \<le> 2 ^ 21 - 1" by (rule diff_le_mono)
  then have "1200 * ((2 :: nat) ^ r - 1) \<le> 1200 * (2 ^ 21 - 1)" by (rule mult_le_mono2)
  also have "\<dots> < (2 :: nat) ^ 32" by simp
  finally show ?thesis by (simp add: ADC_SAMPLE_COUNT_def)
qed

text \<open>
  C10. For an ADC of at most 21 bits of resolution (the largest sample is \<open>2 ^ r - 1\<close>),
  \<^verbatim>\<open>ADC_SAMPLE_COUNT\<close> times the largest sample is below \<open>2 ^ 32\<close>, and for a window of
  at most \<^verbatim>\<open>ADC_SAMPLE_COUNT\<close> such samples, started from a zero accumulator, the 32-bit
  \<^verbatim>\<open>adcSum\<close> is the exact sum of the samples and \<^verbatim>\<open>sampleCount\<close> their number.
\<close>

theorem window_sum_exact:
  assumes "r \<le> 21" "adcEnabled s" "adcSum s = 0" "sampleCount s = 0"
    "length xs \<le> unat ADC_SAMPLE_COUNT" "\<forall>x\<in>set xs. unat x < 2 ^ r"
  shows "unat ADC_SAMPLE_COUNT * (2 ^ r - 1) < 2 ^ 32 \<and>
    unat (adcSum (sample_all xs s)) = sum_list (map unat xs) \<and>
    unat (sampleCount (sample_all xs s)) = length xs"
proof -
  have fit: "unat ADC_SAMPLE_COUNT * (2 ^ r - 1) < (2 :: nat) ^ 32"
    using assms(1) by (rule window_fits)
  from assms(6) have "\<forall>x\<in>set xs. unat x \<le> 2 ^ r - 1" by fastforce
  then have "sum_list (map unat xs) \<le> length xs * (2 ^ r - 1)" by (rule sum_list_bounded)
  also have "\<dots> \<le> unat ADC_SAMPLE_COUNT * (2 ^ r - 1)" using assms(5) by (rule mult_le_mono1)
  finally have b: "sum_list (map unat xs) < 2 ^ 32" using fit by simp
  from assms(5) have l: "length xs < 2 ^ 32" by (simp add: ADC_SAMPLE_COUNT_def)
  from sample_all_exact [OF assms(2), of xs] b l assms(3,4) fit show ?thesis by simp
qed

theorem window_sum_exact_witness:
  "(10 :: nat) \<le> 21 \<and> adcEnabled enabled_state \<and> adcSum enabled_state = 0 \<and>
   sampleCount enabled_state = 0 \<and>
   length (replicate 1200 (1023 :: 32 word)) \<le> unat ADC_SAMPLE_COUNT \<and>
   list_all (\<lambda>x. unat x < 2 ^ 10) (replicate 1200 (1023 :: 32 word)) \<and>
   unat ADC_SAMPLE_COUNT * (2 ^ 10 - 1) < (2 :: nat) ^ 32 \<and>
   unat (adcSum (sample_all (replicate 1200 1023) enabled_state)) = 1227600 \<and>
   unat (sampleCount (sample_all (replicate 1200 1023) enabled_state)) = 1200"
proof -
  define xs :: "32 word list" where "xs = replicate 1200 1023"
  have h: "(10 :: nat) \<le> 21" "adcEnabled enabled_state" "adcSum enabled_state = 0"
    "sampleCount enabled_state = 0" "length xs \<le> unat ADC_SAMPLE_COUNT"
    "\<forall>x\<in>set xs. unat x < 2 ^ 10"
    by (simp_all add: enabled_state_def initial_state_def xs_def ADC_SAMPLE_COUNT_def)
  have v: "sum_list (map unat xs) = 1227600" "length xs = 1200"
    by (simp_all add: xs_def sum_list_replicate)
  have "list_all (\<lambda>x. unat x < 2 ^ 10) xs" using h(6) by (simp add: list_all_iff)
  with window_sum_exact [OF h] h(1-5) show ?thesis
    unfolding xs_def [symmetric] by (simp add: v)
qed

section \<open>What the assumptions are worth\<close>

text \<open>
  Two facts behind the hypotheses used above. A transmitter that never becomes idle
  keeps the busy-wait loop, and with it the reporter and a recognized command, from ever
  returning. And the well-formedness of the receive buffer assumed of a recognizer state
  holds in every state reached from power-up.
\<close>

lemma wait_idle_Some_idle:
  assumes "wait_idle busy k = Some m"
  shows "\<exists>d. \<not> busy (k + d)"
proof (rule wait_idle.raw_induct [where P = "\<lambda>busy k m. \<exists>d. \<not> busy (k + d)", OF _ assms])
  fix wait :: "(nat \<Rightarrow> bool) \<Rightarrow> nat \<Rightarrow> nat option" and busy k m
  assume IH: "\<And>busy k m. wait busy k = Some m \<Longrightarrow> \<exists>d. \<not> busy (k + d)"
    and eq: "(if busy k then wait busy (Suc k) else Some (Suc k)) = Some m"
  show "\<exists>d. \<not> busy (k + d)"
  proof (cases "busy k")
    case False
    then have "\<not> busy (k + 0)" by simp
    then show ?thesis by blast
  next
    case True
    with eq have "wait busy (Suc k) = Some m" by simp
    from IH [OF this] obtain d where "\<not> busy (Suc k + d)" by blast
    then have "\<not> busy (k + Suc d)" by simp
    then show ?thesis by blast
  qed
qed

lemma wait_idle_stuck: "\<forall>d. busy (k + d) \<Longrightarrow> wait_idle busy k = None"
  using wait_idle_Some_idle [of busy k] by (cases "wait_idle busy k") auto

lemma Calculate_ADC_Average_stuck:
  assumes "sampleCount s \<noteq> 0" "\<forall>d. busy (polls s + d)"
  shows "Calculate_ADC_Average busy s = None"
  using assms(1) wait_idle_stuck [OF assms(2)]
  by (simp add: Calculate_ADC_Average_def Let_def udiv32_def UART2_WaitWhileBusy_def)

lemma rx_ok_receive:
  assumes "rx_ok s" "receive busy b s = Some s'"
  shows "rx_ok s'"
proof (cases "printable b")
  case False
  from receive_unprintable [OF this, of busy s] assms show ?thesis by auto
next
  case True
  have len: "length (rxBuffer (appended b s)) = 16" using assms(1) by (simp add: rx_ok_def appended_def)
  consider (start) "line s @ [b] = ''START''"
    | (stop) "line s @ [b] \<noteq> ''START''" "line s @ [b] = ''STOP''"
    | (full) "line s @ [b] \<noteq> ''START''" "line s @ [b] \<noteq> ''STOP''" "length (line s) = 14"
    | (keep) "line s @ [b] \<noteq> ''START''" "line s @ [b] \<noteq> ''STOP''" "length (line s) \<noteq> 14"
    by blast
  then show ?thesis
  proof cases
    case start
    let ?s3 = "cleared (appended b s\<lparr>adcEnabled := True\<rparr>)"
    have "length (rxBuffer (appended b s\<lparr>adcEnabled := True\<rparr>)) = 16" using len by simp
    from cleared_empty [OF this] have ok: "rx_ok ?s3" by simp
    have "receive busy b s = UART2_WaitWhileBusy busy ?s3 \<bind>
        (\<lambda>s4. Some (UART2_Read (UART2_Write (c_lit (''OK_START'' @ CRLF)) 10 s4)))"
      by (subst receive_printable [OF assms(1) True]) (simp add: start)
    with assms(2) have "UART2_WaitWhileBusy busy ?s3 \<bind>
        (\<lambda>s4. Some (UART2_Read (UART2_Write (c_lit (''OK_START'' @ CRLF)) 10 s4))) = Some s'"
      by simp
    then obtain k where "s' = UART2_Read (UART2_Write (c_lit (''OK_START'' @ CRLF)) 10 (?s3\<lparr>polls := k\<rparr>))"
      by (auto simp: UART2_WaitWhileBusy_def split: option.splits bind_splits)
    with ok show ?thesis by simp
  next
    case stop
    let ?s3 = "cleared (appended b s\<lparr>adcEnabled := False, adcSum := 0, sampleCount := 0,
                    dataReady := False\<rparr>)"
    have "length (rxBuffer (appended b s\<lparr>adcEnabled := False, adcSum := 0, sampleCount := 0,
                    dataReady := False\<rparr>)) = 16" using len by simp
    from cleared_empty [OF this] have ok: "rx_ok ?s3" by simp
    have "receive busy b s = UART2_WaitWhileBusy busy ?s3 \<bind>
        (\<lambda>s4. Some (UART2_Read (UART2_Write (c_lit (''OK_STOP'' @ CRLF)) 9 s4)))"
      by (subst receive_printable [OF assms(1) True]) (simp add: stop)
    with assms(2) have "UART2_WaitWhileBusy busy ?s3 \<bind>
        (\<lambda>s4. Some (UART2_Read (UART2_Write (c_lit (''OK_STOP'' @ CRLF)) 9 s4))) = Some s'"
      by simp
    then obtain k where "s' = UART2_Read (UART2_Write (c_lit (''OK_STOP'' @ CRLF)) 9 (?s3\<lparr>polls := k\<rparr>))"
      by (auto simp: UART2_WaitWhileBusy_def split: option.splits bind_splits)
    with ok show ?thesis by simp
  next
    case full
    from receive_drop [OF assms(1) True full, of busy] assms(2)
    have "s' = UART2_Read (cleared (appended b s))" by simp
    with cleared_empty [OF len] show ?thesis by simp
  next
    case keep
    from assms(1) have "length (line s) < 15"
      using length_line [OF assms(1)] unat_index [of "rxIndex s"] by (simp add: rx_ok_def)
    with keep(3) have short: "length (line s) < 14" by simp
    from receive_keep [OF assms(1) True keep(1,2) short, of busy] assms(2)
    have "s' = UART2_Read (appended b s)" by simp
    with rx_ok_appended [OF assms(1) True short] show ?thesis by simp
  qed
qed

lemma rx_ok_ADC_Callback: "rx_ok (ADC_Callback x s) = rx_ok s"
  by (simp add: ADC_Callback_def Let_def EVIC_SourceStatusClear_def rx_ok_def line_def)

lemma rx_ok_Calculate:
  assumes "rx_ok s" "Calculate_ADC_Average busy s = Some (Inr s')"
  shows "rx_ok s'"
  using assms
  by (auto simp: Calculate_ADC_Average_def Let_def udiv32_def UART2_WaitWhileBusy_def
      UART2_Write_def rx_ok_def line_def split: if_splits option.splits bind_splits)

lemma rx_ok_run:
  assumes "rx_ok s" "run busy evs s = Some (Inr s')"
  shows "rx_ok s'"
  using assms
proof (induction evs arbitrary: s)
  case Nil
  then show ?case by simp
next
  case (Cons e evs)
  from Cons.prems(2) obtain s1 where
    s1: "step busy e s = Some (Inr s1)" "run busy evs s1 = Some (Inr s')"
    by (auto split: option.splits sum.splits)
  have "rx_ok s1"
  proof (cases e)
    case (Conversion x)
    with s1(1) Cons.prems(1) show ?thesis by (auto simp: rx_ok_ADC_Callback)
  next
    case (Byte b)
    with s1(1) Cons.prems(1) show ?thesis by (auto intro: rx_ok_receive)
  next
    case Report
    with s1(1) Cons.prems(1) show ?thesis by (auto intro: rx_ok_Calculate)
  qed
  from Cons.IH [OF this s1(2)] show ?case .
qed

lemma rx_ok_reachable: "run busy evs initial_state = Some (Inr s) \<Longrightarrow> rx_ok s"
  using rx_ok_initial by (rule rx_ok_run)

lemma receive_command_stuck:
  assumes "rx_ok s" "printable b" "line s @ [b] = ''START'' \<or> line s @ [b] = ''STOP''"
    "\<forall>d. busy (polls s + d)"
  shows "receive busy b s = None"
proof -
  have w: "wait_idle busy (polls s) = None" using assms(4) by (rule wait_idle_stuck)
  from assms(3) show ?thesis
  proof
    assume m: "line s @ [b] = ''START''"
    show ?thesis
      by (subst receive_printable [OF assms(1,2)])
        (simp add: m UART2_WaitWhileBusy_def cleared_def appended_def w)
  next
    assume m: "line s @ [b] = ''STOP''"
    show ?thesis
      by (subst receive_printable [OF assms(1,2)])
        (simp add: m UART2_WaitWhileBusy_def cleared_def appended_def w)
  qed
qed

lemma main_setup_state:
  "tx_log main_setup = [''READY'' @ CRLF]" "rx_arms main_setup = 1" "rx_ok main_setup"
  "line main_setup = []" "\<not> adcEnabled main_setup" "window_inv main_setup"
  by (simp_all add: main_setup_def rx_ok_initial line_initial window_inv_zero)
    (simp_all add: UART2_Read_def UART2_Write_def initial_state_def c_lit_def CRLF_def
      window_inv_def ADC_SAMPLE_COUNT_def)

lemma main_loop_body_idle: "\<not> dataReady s \<Longrightarrow> main_loop_body busy s = Some (Inr s)"
  by (simp add: main_loop_body_def)

lemma main_loop_body_drains:
  assumes "main_loop_body busy s = Some (Inr s')" "dataReady s"
  shows "\<not> dataReady s' \<and> sampleCount s' = 0 \<and> adcSum s' = 0"
proof -
  from assms have "Calculate_ADC_Average busy s = Some (Inr s')" by (simp add: main_loop_body_def)
  from Calculate_ADC_Average_resets [OF this] show ?thesis by simp
qed

end
